theory Spec2Isabelle
  imports Complex_Main "HOL-Library.Signed_Division" "HOL-Library.Log_Nat"
begin

section \<open>Greedy separation of points by axis-parallel lines (sep.c)\<close>

text \<open>
  The program reads a set of points, sorts them by x and by y, connects every point with
  every other point, generates candidate lines on each axis by halving index ranges of
  the sorted arrays, and then walks the two candidate arrays in lockstep, committing each
  line that still has a connected pair on both of its sides.

  Conventions of the embedding.
  \<^item> A pointer to a point is the index of that point in \<open>points\<close>; a pointer to a line is
    a \<open>line_ref\<close>, the array it lives in and its index there. \<open>NULL\<close> is \<open>None\<close>.
  \<^item> The array \<open>points\<close> and each \<open>pt_connections\<close> array are stores from index to
    value. The arrays \<open>sorted_x_pt\<close>, \<open>sorted_y_pt\<close>, \<open>x_lines\<close>, \<open>y_lines\<close> and
    \<open>all_lines\<close> are lists holding the entries in use; their counters \<open>n_x_lines\<close>,
    \<open>n_y_lines\<close> and \<open>n_lines\<close> are the lengths of the lists. The capacity
    \<open>MAX_PTS\<close> of the C arrays is checked where the source checks it (the reading loop)
    and where an index is computed from the arguments (\<open>div_axis\<close>); elsewhere the
    lists grow as far as the program appends to them. In particular \<open>commit\<close> stores
    into \<open>all_lines[n_lines]\<close> without a check, and the model follows a run for as long
    as fewer than \<open>MAX_PTS\<close> lines are committed.
  \<^item> C \<open>int\<close> counters stay far below the word size (at most \<open>MAX_PTS\<close> points), so they
    are \<open>int\<close> or \<open>nat\<close>. A coordinate is an \<open>int\<close> as well; every coordinate
    of a loaded instance fits the C type. Division and remainder of \<open>int\<close> truncate towards zero in
    C: \<open>sdiv\<close> and \<open>smod\<close>.
  \<^item> A \<open>float\<close> is the rational number it stands for. The float operations of the
    program are the conversion of an integer coordinate, a difference, a halving, a sum
    and comparisons. The result of each of the first four is cast to \<open>float\<close> or
    assigned to a \<open>float\<close> variable, and is rounded to single precision there
    (\<open>to_float\<close>).
  \<^item> The four \<open>pt_adj_ln\<close> fields of a point are set to \<open>NULL\<close> by the loader and
    never used; they are left out.
  \<^item> Where the C standard leaves the behaviour undefined (a store outside an array, an
    input number that does not fit an \<open>int\<close>) the function has no result state, and
    the run is \<open>Undefined\<close>.
\<close>

subsection \<open>Data\<close>

definition MAX_PTS :: nat where
  "MAX_PTS = 100"

datatype axis = X | Y

datatype ret_val =
  SUCCESS | READ_NO_POINTS | READ_N_POINTS_MORE_LESS | READ_NOT_FOUND | INS_LN_EXIST

record line =
  ln_axis :: axis
  ln_committed :: int
  ln_inter :: rat

record point =
  pt_x :: int
  pt_y :: int
  pt_con_cnt :: int
  pt_self_ix :: nat
  pt_connections :: "nat \<Rightarrow> nat option"

datatype line_ref = XLine nat | YLine nat

record state =
  points :: "nat \<Rightarrow> point"
  sorted_x_pt :: "nat list"
  sorted_y_pt :: "nat list"
  x_lines :: "line list"
  y_lines :: "line list"
  all_lines :: "line_ref list"
  n_pts :: nat
  rem_cons :: int
  x_pt_taken :: "int list"
  y_pt_taken :: "int list"

text \<open>The static storage of a fresh process: everything zero.\<close>

definition zero_point :: point where
  "zero_point = \<lparr>pt_x = 0, pt_y = 0, pt_con_cnt = 0, pt_self_ix = 0,
     pt_connections = (\<lambda>_. None)\<rparr>"

definition init_state :: state where
  "init_state = \<lparr>points = (\<lambda>_. zero_point), sorted_x_pt = [], sorted_y_pt = [],
     x_lines = [], y_lines = [], all_lines = [], n_pts = 0, rem_cons = 0,
     x_pt_taken = replicate MAX_PTS 0, y_pt_taken = replicate MAX_PTS 0\<rparr>"

subsection \<open>Single precision\<close>

text \<open>
  IEEE single precision, rounding to nearest with ties to even. A number of magnitude
  in \<open>[2^e, 2^(e+1))\<close> is rounded to a multiple of \<open>2^(e-23)\<close>, where the exponent
  \<open>e\<close> is at least \<open>-126\<close>. The program computes numbers of
  magnitude below \<open>2^33\<close> only, far from the largest float, so overflow to infinity
  is not modelled.
\<close>

definition rne :: "rat \<Rightarrow> int" where
  "rne x = (let f = \<lfloor>x\<rfloor>; d = x - of_int f
            in if d < 1 / 2 then f
               else if 1 / 2 < d then f + 1
               else if even f then f else f + 1)"

definition float_exp :: "rat \<Rightarrow> int" where
  "float_exp r =
     (let (p, q) = quotient_of \<bar>r\<bar>;
          e = bitlen p - bitlen q
      in max (- 126) (if 2 powi e \<le> \<bar>r\<bar> then e else e - 1))"

definition to_float :: "rat \<Rightarrow> rat" where
  "to_float r = (let u = 2 powi (float_exp r - 23) in of_int (rne (r / u)) * u)"

subsection \<open>Small accessors\<close>

text \<open>\<open>ls\<close> in the source: the sorted pointer array of the axis.\<close>

definition ls_of :: "state \<Rightarrow> axis \<Rightarrow> nat list" where
  "ls_of s a = (if a = X then sorted_x_pt s else sorted_y_pt s)"

text \<open>\<open>(float)p->pt_x\<close> or \<open>(float)p->pt_y\<close>, by axis.\<close>

definition coord_of :: "point \<Rightarrow> axis \<Rightarrow> rat" where
  "coord_of p a = (if a = X then to_float (of_int (pt_x p)) else to_float (of_int (pt_y p)))"

text \<open>\<open>points[i].pt_connections[j] != NULL\<close>.\<close>

definition con :: "state \<Rightarrow> nat \<Rightarrow> nat \<Rightarrow> bool" where
  "con s i j = (pt_connections (points s i) j \<noteq> None)"

definition deref :: "state \<Rightarrow> line_ref \<Rightarrow> line" where
  "deref s l = (case l of XLine k \<Rightarrow> x_lines s ! k | YLine k \<Rightarrow> y_lines s ! k)"

definition valid_ref :: "state \<Rightarrow> line_ref \<Rightarrow> bool" where
  "valid_ref s l = (case l of XLine k \<Rightarrow> k < length (x_lines s)
                            | YLine k \<Rightarrow> k < length (y_lines s))"

subsection \<open>get_point_nearest_inter\<close>

text \<open>
  The scanning loop of \<open>get_point_nearest_inter\<close>, started at position \<open>i\<close>: the first
  position whose coordinate exceeds the intersect \<open>intr\<close> (\<open>inter\<close> in the source)
  ends the scan with the position before it; running off the end of the array returns
  \<open>-1\<close>.
\<close>

function nearest_from :: "state \<Rightarrow> axis \<Rightarrow> rat \<Rightarrow> nat \<Rightarrow> int" where
  "nearest_from s a intr i =
     (if i < n_pts s then
        (let coord = coord_of (points s (ls_of s a ! i)) a
         in if coord > intr then int i - 1
            else nearest_from s a intr (i + 1))
      else - 1)"
  by pat_completeness auto
termination
  by (relation "measure (\<lambda>(s, a, intr, i). n_pts s - i)") auto

declare nearest_from.simps [simp del]

definition get_point_nearest_inter :: "state \<Rightarrow> axis \<Rightarrow> rat \<Rightarrow> int" where
  "get_point_nearest_inter s a intr = nearest_from s a intr 0"

subsection \<open>disconnect_points\<close>

definition set_con :: "state \<Rightarrow> nat \<Rightarrow> nat \<Rightarrow> nat option \<Rightarrow> state" where
  "set_con s i j v =
     s\<lparr>points := (points s)(i := (points s i)
          \<lparr>pt_connections := (pt_connections (points s i))(j := v)\<rparr>)\<rparr>"

definition add_con_cnt :: "state \<Rightarrow> nat \<Rightarrow> int \<Rightarrow> state" where
  "add_con_cnt s i d =
     s\<lparr>points := (points s)(i := (points s i)
          \<lparr>pt_con_cnt := pt_con_cnt (points s i) + d\<rparr>)\<rparr>"

definition disconnect_points :: "state \<Rightarrow> nat \<Rightarrow> nat \<Rightarrow> state" where
  "disconnect_points s pt1 pt2 =
     (if pt_connections (points s pt1) pt2 \<noteq> None then
        (let s1 = set_con s pt1 pt2 None;
             s2 = set_con s1 pt2 pt1 None;
             s3 = add_con_cnt s2 pt1 (- 1);
             s4 = add_con_cnt s3 pt2 (- 1)
         in s4\<lparr>rem_cons := rem_cons s4 - 2\<rparr>)
      else s)"

subsection \<open>commit and check_con\<close>

definition set_committed :: "state \<Rightarrow> line_ref \<Rightarrow> int \<Rightarrow> state" where
  "set_committed s l v =
     (case l of
        XLine k \<Rightarrow> s\<lparr>x_lines := (x_lines s)[k := (x_lines s ! k)\<lparr>ln_committed := v\<rparr>]\<rparr>
      | YLine k \<Rightarrow> s\<lparr>y_lines := (y_lines s)[k := (y_lines s ! k)\<lparr>ln_committed := v\<rparr>]\<rparr>)"

text \<open>
  The two nested loops of \<open>commit\<close>: \<open>i\<close> runs over the positions \<open>0..p\<close>, \<open>j\<close> over
  \<open>p+1..n_pts-1\<close>, and every pair of points at such positions is disconnected.
\<close>

definition disconnect_row :: "nat list \<Rightarrow> nat \<Rightarrow> nat list \<Rightarrow> state \<Rightarrow> state" where
  "disconnect_row ls i js s =
     fold (\<lambda>j s. disconnect_points s (pt_self_ix (points s (ls ! i)))
                                      (pt_self_ix (points s (ls ! j)))) js s"

definition disconnect_across :: "nat list \<Rightarrow> nat list \<Rightarrow> nat list \<Rightarrow> state \<Rightarrow> state" where
  "disconnect_across ls ixs js s = fold (\<lambda>i s. disconnect_row ls i js s) ixs s"

definition commit :: "state \<Rightarrow> line_ref \<Rightarrow> state" where
  "commit s l =
     (let s1 = set_committed s l 1;
          a = ln_axis (deref s1 l);
          intr = ln_inter (deref s1 l);
          s2 = s1\<lparr>all_lines := all_lines s1 @ [l]\<rparr>;
          p = get_point_nearest_inter s2 a intr;
          ls = ls_of s2 a
      in disconnect_across ls [0..<nat (p + 1)] [nat (p + 1)..<n_pts s2] s2)"

text \<open>
  \<open>check_con\<close> runs the same two loops and returns 1 at the first connected pair it
  meets, 0 when it meets none.
\<close>

definition check_con :: "state \<Rightarrow> line_ref \<Rightarrow> bool" where
  "check_con s l =
     (let a = ln_axis (deref s l);
          intr = ln_inter (deref s l);
          p = get_point_nearest_inter s a intr;
          ls = ls_of s a
      in list_ex (\<lambda>i. list_ex (\<lambda>j.
             pt_connections (points s (pt_self_ix (points s (ls ! i))))
                            (pt_self_ix (points s (ls ! j))) \<noteq> None)
           [nat (p + 1)..<n_pts s]) [0..<nat (p + 1)])"

subsection \<open>read_instance_file\<close>

text \<open>
  An instance file is the sequence of the items that the conversion \<open>%d\<close> meets in
  it, white space skipped: a decimal integer (\<open>Num\<close>), or text that is no integer
  (\<open>Junk\<close>), at which the conversion fails and which stays in the stream. (A sign
  with no digit after it, which the conversion takes from the stream before it fails,
  has no item of its own.) A file that does not exist is \<open>None\<close>.
\<close>

datatype item = Num int | Junk

definition fits_int :: "int \<Rightarrow> bool" where
  "fits_int v = (- (2 ^ 31) \<le> v \<and> v < 2 ^ 31)"

definition EOF :: int where
  "EOF = - 1"

text \<open>
  \<open>fscanf(inst, "%d", &v)\<close>: the value returned, the value \<open>v\<close> has afterwards, and
  the rest of the stream. At the end of the file the result is \<open>EOF\<close>, at text that is
  no integer it is 0, and \<open>v\<close> keeps its value in both cases. There is no result when
  the number does not fit an \<open>int\<close>.
\<close>

fun fscanf_d :: "item list \<Rightarrow> int \<Rightarrow> (int \<times> int \<times> item list) option" where
  "fscanf_d [] v = Some (EOF, v, [])"
| "fscanf_d (Junk # r) v = Some (0, v, Junk # r)"
| "fscanf_d (Num w # r) v = (if fits_int w then Some (1, w, r) else None)"

text \<open>
  \<open>fscanf(inst, "%d %d", &x, &y)\<close>: when the first conversion succeeds and the second
  does not, for want of input or of an integer, one item has been assigned and the
  result is 1, with \<open>y\<close> as it was.
\<close>

definition fscanf_d_d ::
    "item list \<Rightarrow> int \<Rightarrow> int \<Rightarrow> (int \<times> int \<times> int \<times> item list) option" where
  "fscanf_d_d its x y =
     (case fscanf_d its x of
        None \<Rightarrow> None
      | Some (r1, x', its1) \<Rightarrow>
          if r1 \<noteq> 1 then Some (r1, x', y, its1)
          else (case fscanf_d its1 y of
                  None \<Rightarrow> None
                | Some (r2, y', its2) \<Rightarrow> Some (if r2 = 1 then 2 else 1, x', y', its2)))"

definition store_point :: "(nat \<Rightarrow> point) \<Rightarrow> nat \<Rightarrow> int \<Rightarrow> int \<Rightarrow> (nat \<Rightarrow> point)" where
  "store_point ps i x y = ps(i := (ps i)\<lparr>pt_x := x, pt_y := y, pt_con_cnt := 0\<rparr>)"

text \<open>
  The reading loop, \<open>while (fscanf(inst, "%d %d", &x, &y) != EOF && i < MAX_PTS)\<close>,
  from the point number \<open>i\<close> and the current values of \<open>x\<close> and \<open>y\<close>. The body
  stores the point and marks \<open>x_pt_taken[x]\<close> and \<open>y_pt_taken[i]\<close>; the first of
  these two stores is inside the array for \<open>0 \<le> x < MAX_PTS\<close> only. The result is the
  final \<open>i\<close> and the state.
\<close>

function read_points ::
    "item list \<Rightarrow> nat \<Rightarrow> int \<Rightarrow> int \<Rightarrow> state \<Rightarrow> (nat \<times> state) option" where
  "read_points its i x y s =
     (case fscanf_d_d its x y of
        None \<Rightarrow> None
      | Some (ret, x', y', its') \<Rightarrow>
          if ret \<noteq> EOF \<and> i < MAX_PTS then
            (if 0 \<le> x' \<and> x' < int MAX_PTS then
               read_points its' (i + 1) x' y'
                 (s\<lparr>points := store_point (points s) i x' y',
                    x_pt_taken := (x_pt_taken s)[nat x' := 1],
                    y_pt_taken := (y_pt_taken s)[i := 1]\<rparr>)
             else None)
          else Some (i, s))"
  by pat_completeness auto
termination
  by (relation "measure (\<lambda>(its, i, x, y, s). MAX_PTS - i)") auto

declare read_points.simps [simp del]

text \<open>
  The result is the status the function returns; with \<open>SUCCESS\<close> comes the state it
  leaves. The other statuses make \<open>main\<close> exit, so no state comes with them. The
  declared number of points is read into \<open>n_pts\<close>, which keeps its value when the file
  does not start with an integer; the two \<open>taken\<close> arrays are cleared before the
  points are read.
\<close>

datatype failure = Status ret_val | Undefined

definition read_instance_file :: "state \<Rightarrow> item list option \<Rightarrow> failure + state" where
  "read_instance_file s file =
     (case file of
        None \<Rightarrow> Inl (Status READ_NOT_FOUND)
      | Some its \<Rightarrow>
         (case fscanf_d its (int (n_pts s)) of
            None \<Rightarrow> Inl Undefined
          | Some (ret, n, its1) \<Rightarrow>
              if ret = EOF then Inl (Status READ_NO_POINTS)
              else
                (case read_points its1 0 0 0
                        (s\<lparr>x_pt_taken := replicate MAX_PTS 0,
                           y_pt_taken := replicate MAX_PTS 0\<rparr>) of
                   None \<Rightarrow> Inl Undefined
                 | Some (i, s1) \<Rightarrow>
                     if int i \<noteq> n then Inl (Status READ_N_POINTS_MORE_LESS)
                     else Inr (s1\<lparr>n_pts := i, sorted_x_pt := [0..<i],
                                  sorted_y_pt := [0..<i]\<rparr>))))"

subsection \<open>sort_points\<close>

text \<open>
  \<open>qsort\<close> belongs to the C library; it leaves the array sorted by the comparison
  function and says nothing about the order of equal keys. It is modelled by the stable
  insertion sort \<open>sort_key\<close>.
\<close>

definition sort_points :: "state \<Rightarrow> state" where
  "sort_points s =
     s\<lparr>sorted_x_pt := sort_key (\<lambda>k. pt_x (points s k)) (sorted_x_pt s),
       sorted_y_pt := sort_key (\<lambda>k. pt_y (points s k)) (sorted_y_pt s)\<rparr>"

subsection \<open>initialize_connections\<close>

datatype stop = Quit ret_val | QuitRemCons | NoReturn | UndefinedRead

definition malloc_connections :: "nat \<Rightarrow> state \<Rightarrow> state" where
  "malloc_connections i s =
     s\<lparr>points := (points s)(i := (points s i)\<lparr>pt_connections := (\<lambda>_. None)\<rparr>)\<rparr>"

definition init_entry :: "nat \<Rightarrow> nat \<Rightarrow> state \<Rightarrow> state" where
  "init_entry i j s =
     (if i \<noteq> j then
        (let s1 = set_con s i j (Some j);
             s2 = add_con_cnt s1 i 1
         in s2\<lparr>rem_cons := rem_cons s2 + 1\<rparr>)
      else set_con s i j None)"

definition init_row :: "nat \<Rightarrow> state \<Rightarrow> state" where
  "init_row i s =
     fold (init_entry i) [0..<n_pts s]
       (s\<lparr>points := (points s)(i := (points s i)\<lparr>pt_self_ix := i\<rparr>)\<rparr>)"

text \<open>
  The function ends with a check of the counter; when it fails the program prints a
  message and exits (\<open>QuitRemCons\<close>). \<open>rem_cons\<close> is not reset here or anywhere else.
\<close>

definition initialize_connections :: "state \<Rightarrow> stop + state" where
  "initialize_connections s =
     (let s1 = fold malloc_connections [0..<n_pts s] s;
          s2 = fold init_row [0..<n_pts s1] s1
      in if rem_cons s2 \<noteq> int (n_pts s2) * (int (n_pts s2) - 1) then Inl QuitRemCons
         else Inr s2)"

definition free_connections :: "state \<Rightarrow> state" where
  "free_connections s = s\<lparr>n_pts := 0, all_lines := [], x_lines := [], y_lines := []\<rparr>"

subsection \<open>div_axis\<close>

text \<open>
  The two branches of \<open>div_axis\<close> differ only in the array, the coordinate and the line
  array they use, so the axis is a parameter of the helpers
  (\<open>spn\<close> is \<open>span\<close> in the source). A read of \<open>ls\<close> at an index
  outside the entries in use has no value (\<open>None\<close>), and the function does not return a
  state then; neither does it when the recursion does not end.
\<close>

definition pt_at :: "state \<Rightarrow> axis \<Rightarrow> int \<Rightarrow> point option" where
  "pt_at s a k =
     (if 0 \<le> k \<and> nat k < length (ls_of s a) then Some (points s (ls_of s a ! nat k))
      else None)"

definition add_line :: "state \<Rightarrow> axis \<Rightarrow> line \<Rightarrow> state" where
  "add_line s a l =
     (if a = X then s\<lparr>x_lines := x_lines s @ [l]\<rparr> else s\<lparr>y_lines := y_lines s @ [l]\<rparr>)"

definition half_of :: "int \<Rightarrow> int" where
  "half_of spn = (if spn smod 2 \<noteq> 0 then (spn - 1) sdiv 2 else spn sdiv 2)"

definition mid_line :: "axis \<Rightarrow> point \<Rightarrow> point \<Rightarrow> line" where
  "mid_line a pt1 pt2 =
     (let pta = coord_of pt1 a;
          ptb = coord_of pt2 a;
          ptdiff = to_float (ptb - pta);
          ptmid_dist = to_float (ptdiff / 2);
          ptmid_coord = to_float (pta + ptmid_dist)
      in \<lparr>ln_axis = a, ln_committed = 0, ln_inter = ptmid_coord\<rparr>)"

partial_function (option) div_axis :: "state \<Rightarrow> axis \<Rightarrow> int \<Rightarrow> int \<Rightarrow> state option" where
  "div_axis s a from to =
     (if from = to then Some s
      else let spn = to - from in
        if spn = 0 \<or> spn = 1 then Some s
        else let half = half_of spn in
          if half \<noteq> 0 then
            (case pt_at s a (from + half) of
               None \<Rightarrow> None
             | Some pt1 \<Rightarrow>
                (case pt_at s a (from + (half + 1)) of
                   None \<Rightarrow> None
                 | Some pt2 \<Rightarrow>
                    (let s1 = add_line s a (mid_line a pt1 pt2)
                     in if spn \<noteq> 2 then
                          Option.bind (div_axis s1 a from (from + half))
                            (\<lambda>s2. div_axis s2 a (from + half) to)
                        else Some s1)))
          else Some s)"

declare div_axis.simps [code]

subsection \<open>The greedy loop of main\<close>

definition try_line :: "state \<Rightarrow> line_ref \<Rightarrow> state" where
  "try_line s l = (if check_con s l then commit s l else s)"

text \<open>
  Disconnecting touches the connection arrays, the connection counts and \<open>rem_cons\<close>
  only. \<open>same_frame\<close> collects what stays: the arrays of lines and sorted pointers,
  the number of points, and each point's coordinates and own index.
\<close>

definition same_frame :: "state \<Rightarrow> state \<Rightarrow> bool" where
  "same_frame s s' =
     (x_lines s' = x_lines s \<and> y_lines s' = y_lines s \<and> all_lines s' = all_lines s \<and>
      n_pts s' = n_pts s \<and> sorted_x_pt s' = sorted_x_pt s \<and>
      sorted_y_pt s' = sorted_y_pt s \<and>
      (\<forall>k. pt_x (points s' k) = pt_x (points s k) \<and>
           pt_y (points s' k) = pt_y (points s k) \<and>
           pt_self_ix (points s' k) = pt_self_ix (points s k)))"

lemma same_frame_refl: "same_frame s s"
  by (simp add: same_frame_def)

lemma same_frame_trans: "same_frame s t \<Longrightarrow> same_frame t u \<Longrightarrow> same_frame s u"
  by (simp add: same_frame_def)

lemma same_frame_disconnect_points: "same_frame s (disconnect_points s pt1 pt2)"
  by (simp add: same_frame_def disconnect_points_def set_con_def add_con_cnt_def Let_def)

lemma same_frame_fold:
  assumes "\<And>x t. same_frame t (f x t)"
  shows "same_frame s (fold f xs s)"
proof (induction xs arbitrary: s)
  case Nil
  show ?case by (simp add: same_frame_refl)
next
  case (Cons x xs)
  have "same_frame s (f x s)" by (rule assms)
  moreover have "same_frame (f x s) (fold f xs (f x s))" by (rule Cons.IH)
  ultimately show ?case by (auto intro: same_frame_trans)
qed

lemma same_frame_disconnect_row: "same_frame s (disconnect_row ls i js s)"
  unfolding disconnect_row_def
  by (rule same_frame_fold) (rule same_frame_disconnect_points)

lemma same_frame_disconnect_across: "same_frame s (disconnect_across ls ixs js s)"
  unfolding disconnect_across_def
  by (rule same_frame_fold) (rule same_frame_disconnect_row)

lemma length_x_lines_set_committed [simp]:
  "length (x_lines (set_committed s l v)) = length (x_lines s)"
  by (cases l) (simp_all add: set_committed_def)

lemma length_y_lines_set_committed [simp]:
  "length (y_lines (set_committed s l v)) = length (y_lines s)"
  by (cases l) (simp_all add: set_committed_def)

lemma length_x_lines_commit [simp]: "length (x_lines (commit s l)) = length (x_lines s)"
  using same_frame_disconnect_across
  by (simp add: commit_def Let_def same_frame_def)

lemma length_y_lines_commit [simp]: "length (y_lines (commit s l)) = length (y_lines s)"
  using same_frame_disconnect_across
  by (simp add: commit_def Let_def same_frame_def)

lemma length_x_lines_try_line [simp]: "length (x_lines (try_line s l)) = length (x_lines s)"
  by (simp add: try_line_def)

lemma length_y_lines_try_line [simp]: "length (y_lines (try_line s l)) = length (y_lines s)"
  by (simp add: try_line_def)

text \<open>
  The loop of \<open>main\<close>, \<open>while (rem_cons && clx < n_x_lines && cly < n_y_lines)\<close>: each
  round (\<open>loop_body\<close>) tests the next line of \<open>x_lines\<close>, then the next line of
  \<open>y_lines\<close>, and both cursors advance. The result is the state and the two cursors
  at the exit.
\<close>

definition loop_cond :: "state \<Rightarrow> nat \<Rightarrow> nat \<Rightarrow> bool" where
  "loop_cond s clx cly =
     (rem_cons s \<noteq> 0 \<and> clx < length (x_lines s) \<and> cly < length (y_lines s))"

definition loop_body :: "state \<Rightarrow> nat \<Rightarrow> nat \<Rightarrow> state" where
  "loop_body s clx cly =
     (let s1 = try_line s (XLine clx);
          s2 = try_line s1 (YLine cly)
      in s2)"

lemma length_x_lines_loop_body [simp]:
  "length (x_lines (loop_body s clx cly)) = length (x_lines s)"
  by (simp add: loop_body_def)

lemma length_y_lines_loop_body [simp]:
  "length (y_lines (loop_body s clx cly)) = length (y_lines s)"
  by (simp add: loop_body_def)

function greedy_loop :: "state \<Rightarrow> nat \<Rightarrow> nat \<Rightarrow> state \<times> nat \<times> nat" where
  "greedy_loop s clx cly =
     (if loop_cond s clx cly then greedy_loop (loop_body s clx cly) (clx + 1) (cly + 1)
      else (s, clx, cly))"
  by pat_completeness auto
termination
  by (relation "measure (\<lambda>(s, clx, cly). length (x_lines s) - clx)")
     (auto simp: loop_cond_def)

declare greedy_loop.simps [simp del]

subsection \<open>serialize_solution and one round of main\<close>

text \<open>
  The solution file holds \<open>n_lines\<close> and then one row per committed line, in the order
  of \<open>all_lines\<close>: \<open>v\<close> for a line on the x axis, \<open>h\<close> for one on the y axis, and
  the intersect.
\<close>

definition serialize_solution :: "state \<Rightarrow> nat \<times> (char \<times> rat) list" where
  "serialize_solution s =
     (length (all_lines s),
      map (\<lambda>l. (case ln_axis (deref s l) of X \<Rightarrow> CHR ''v'' | Y \<Rightarrow> CHR ''h'',
                 ln_inter (deref s l))) (all_lines s))"

text \<open>
  The body of the loop of \<open>main\<close> between reading the file and writing the
  solution. \<open>prepare\<close> sorts, connects and generates the lines of both axes over the
  positions \<open>0..n_pts-1\<close>; \<open>solve\<close> then runs the greedy loop from both cursors
  at 0.
\<close>

definition prepare :: "state \<Rightarrow> stop + state" where
  "prepare s1 =
     (case initialize_connections (sort_points s1) of
        Inl e \<Rightarrow> Inl e
      | Inr s2 \<Rightarrow>
         (case Option.bind (div_axis s2 X 0 (int (n_pts s2) - 1))
                 (\<lambda>s3. div_axis s3 Y 0 (int (n_pts s3) - 1)) of
            None \<Rightarrow> Inl NoReturn
          | Some s4 \<Rightarrow> Inr s4))"

definition solve :: "state \<Rightarrow> stop + (state \<times> nat \<times> nat)" where
  "solve s1 = (case prepare s1 of Inl e \<Rightarrow> Inl e | Inr s4 \<Rightarrow> Inr (greedy_loop s4 0 0))"

text \<open>
  One round of \<open>main\<close> on one instance file: either the program exits (with no
  solution file written) or it writes the solution and goes on with the state that
  \<open>free_connections\<close> leaves.
\<close>

definition main_instance ::
    "state \<Rightarrow> item list option \<Rightarrow> stop + ((nat \<times> (char \<times> rat) list) \<times> state)" where
  "main_instance s file =
     (case read_instance_file s file of
        Inl (Status status) \<Rightarrow> Inl (Quit status)
      | Inl Undefined \<Rightarrow> Inl UndefinedRead
      | Inr s1 \<Rightarrow>
         (case solve s1 of
            Inl e \<Rightarrow> Inl e
          | Inr (s5, clx, cly) \<Rightarrow> Inr (serialize_solution s5, free_connections s5)))"

subsection \<open>The connectivity graph\<close>

lemma con_disconnect_points:
  "con (disconnect_points s a b) i j =
     (con s i j \<and> \<not> (con s a b \<and> ((i = a \<and> j = b) \<or> (i = b \<and> j = a))))"
  by (auto simp: con_def disconnect_points_def set_con_def add_con_cnt_def Let_def)

lemma rem_cons_disconnect_points:
  "rem_cons (disconnect_points s a b) = (if con s a b then rem_cons s - 2 else rem_cons s)"
  by (simp add: con_def disconnect_points_def set_con_def add_con_cnt_def Let_def)

lemma fold_invariant:
  assumes "P s" and "\<And>x t. x \<in> set xs \<Longrightarrow> P t \<Longrightarrow> P (f x t)"
  shows "P (fold f xs s)"
  using assms by (induction xs arbitrary: s) auto

definition connected_pairs :: "state \<Rightarrow> (nat \<times> nat) set" where
  "connected_pairs s = {(i, j). i < j \<and> j < n_pts s \<and> con s i j}"

definition graph_ok :: "state \<Rightarrow> bool" where
  "graph_ok s =
     ((\<forall>i j. i < n_pts s \<and> j < n_pts s \<longrightarrow> con s i j = con s j i) \<and>
      (\<forall>i. i < n_pts s \<longrightarrow> \<not> con s i i) \<and>
      rem_cons s = 2 * int (card (connected_pairs s)))"

definition wf_state :: "state \<Rightarrow> bool" where
  "wf_state s =
     (length (sorted_x_pt s) = n_pts s \<and> length (sorted_y_pt s) = n_pts s \<and>
      (\<forall>k \<in> set (sorted_x_pt s). k < n_pts s) \<and>
      (\<forall>k \<in> set (sorted_y_pt s). k < n_pts s) \<and>
      (\<forall>k. k < n_pts s \<longrightarrow> pt_self_ix (points s k) = k))"

lemma finite_connected_pairs: "finite (connected_pairs s)"
proof -
  have "connected_pairs s \<subseteq> {..<n_pts s} \<times> {..<n_pts s}"
    by (auto simp: connected_pairs_def)
  then show ?thesis by (rule finite_subset) simp
qed

lemma wf_state_same_frame: "same_frame s s' \<Longrightarrow> wf_state s \<Longrightarrow> wf_state s'"
  by (simp add: wf_state_def same_frame_def)

lemma connected_pairs_disconnect:
  assumes "graph_ok s" "a < n_pts s" "b < n_pts s" "con s a b"
  shows "connected_pairs (disconnect_points s a b) = connected_pairs s - {(min a b, max a b)}"
    and "(min a b, max a b) \<in> connected_pairs s"
proof -
  have ne: "a \<noteq> b" using assms by (auto simp: graph_ok_def)
  have sym: "con s b a" using assms by (auto simp: graph_ok_def)
  have n: "n_pts (disconnect_points s a b) = n_pts s"
    using same_frame_disconnect_points [of s a b] by (simp add: same_frame_def)
  show "(min a b, max a b) \<in> connected_pairs s"
    using assms ne sym by (auto simp: connected_pairs_def min_def max_def)
  show "connected_pairs (disconnect_points s a b) = connected_pairs s - {(min a b, max a b)}"
    using assms ne sym
    by (auto simp: connected_pairs_def n con_disconnect_points min_def max_def)
qed

lemma graph_ok_disconnect_points:
  assumes "graph_ok s" "a < n_pts s" "b < n_pts s"
  shows "graph_ok (disconnect_points s a b)"
proof (cases "con s a b")
  case False
  then have "disconnect_points s a b = s"
    by (simp add: disconnect_points_def con_def)
  with assms show ?thesis by simp
next
  case True
  have n: "n_pts (disconnect_points s a b) = n_pts s"
    using same_frame_disconnect_points [of s a b] by (simp add: same_frame_def)
  have cp: "connected_pairs (disconnect_points s a b) = connected_pairs s - {(min a b, max a b)}"
    and mem: "(min a b, max a b) \<in> connected_pairs s"
    using connected_pairs_disconnect [OF assms True] by simp_all
  have "card (connected_pairs (disconnect_points s a b)) = card (connected_pairs s) - 1"
    using mem by (simp add: cp finite_connected_pairs)
  moreover have "card (connected_pairs s) > 0"
    using mem finite_connected_pairs [of s] by (auto simp: card_gt_0_iff)
  ultimately have c: "2 * int (card (connected_pairs (disconnect_points s a b)))
      = 2 * int (card (connected_pairs s)) - 2"
    by simp
  show ?thesis
    unfolding graph_ok_def n
    using assms(1) True c
    by (auto simp: graph_ok_def con_disconnect_points rem_cons_disconnect_points)
qed

definition same_geometry :: "state \<Rightarrow> state \<Rightarrow> bool" where
  "same_geometry s s' =
     (n_pts s' = n_pts s \<and> sorted_x_pt s' = sorted_x_pt s \<and>
      sorted_y_pt s' = sorted_y_pt s \<and>
      (\<forall>k. pt_x (points s' k) = pt_x (points s k) \<and>
           pt_y (points s' k) = pt_y (points s k) \<and>
           pt_self_ix (points s' k) = pt_self_ix (points s k)))"

lemma same_frame_geometry: "same_frame s s' \<Longrightarrow> same_geometry s s'"
  by (simp add: same_frame_def same_geometry_def)

lemma nearest_from_cong:
  "same_geometry s s' \<Longrightarrow> nearest_from s' a x i = nearest_from s a x i"
proof (induction s a x i rule: nearest_from.induct)
  case (1 s a x i)
  have c: "coord_of (points s' (ls_of s' a ! i)) a = coord_of (points s (ls_of s a ! i)) a"
    and n: "n_pts s' = n_pts s"
    using "1.prems" by (simp_all add: coord_of_def ls_of_def same_geometry_def)
  show ?case
    apply (subst nearest_from.simps [of s'])
    apply (subst nearest_from.simps [of s])
    using 1 c n by (simp add: Let_def)
qed

lemma get_point_nearest_inter_cong:
  "same_geometry s s' \<Longrightarrow> get_point_nearest_inter s' a x = get_point_nearest_inter s a x"
  by (simp add: get_point_nearest_inter_def nearest_from_cong)

lemma nearest_from_range:
  "- 1 \<le> nearest_from s a x i \<and> nat (nearest_from s a x i + 1) \<le> n_pts s"
proof (induction s a x i rule: nearest_from.induct)
  case (1 s a x i)
  show ?case
    apply (subst (1 2) nearest_from.simps)
    using 1 by (auto simp: Let_def)
qed

lemma get_point_nearest_inter_range:
  "- 1 \<le> get_point_nearest_inter s a x"
  "nat (get_point_nearest_inter s a x + 1) \<le> n_pts s"
  using nearest_from_range [of s a x 0] by (simp_all add: get_point_nearest_inter_def)

text \<open>The state of \<open>commit\<close> when its loops start.\<close>

definition pre_commit :: "state \<Rightarrow> line_ref \<Rightarrow> state" where
  "pre_commit s l = (set_committed s l 1)\<lparr>all_lines := all_lines s @ [l]\<rparr>"

lemma deref_set_committed:
  "ln_axis (deref (set_committed s l v) l) = ln_axis (deref s l)"
  "ln_inter (deref (set_committed s l v) l) = ln_inter (deref s l)"
proof -
  have "ln_axis (deref (set_committed s l v) l) = ln_axis (deref s l) \<and>
        ln_inter (deref (set_committed s l v) l) = ln_inter (deref s l)"
  proof (cases l)
    case (XLine k)
    then show ?thesis
      by (cases "k < length (x_lines s)")
         (simp_all add: deref_def set_committed_def list_update_beyond not_less)
  next
    case (YLine k)
    then show ?thesis
      by (cases "k < length (y_lines s)")
         (simp_all add: deref_def set_committed_def list_update_beyond not_less)
  qed
  then show "ln_axis (deref (set_committed s l v) l) = ln_axis (deref s l)"
    and "ln_inter (deref (set_committed s l v) l) = ln_inter (deref s l)"
    by simp_all
qed

lemma committed_set_committed:
  "valid_ref s l \<Longrightarrow> ln_committed (deref (set_committed s l v) l) = v"
  by (cases l) (simp_all add: deref_def set_committed_def valid_ref_def)

lemma set_committed_fields [simp]:
  "points (set_committed s l v) = points s"
  "n_pts (set_committed s l v) = n_pts s"
  "sorted_x_pt (set_committed s l v) = sorted_x_pt s"
  "sorted_y_pt (set_committed s l v) = sorted_y_pt s"
  "all_lines (set_committed s l v) = all_lines s"
  "rem_cons (set_committed s l v) = rem_cons s"
  by (cases l; simp add: set_committed_def)+

lemma pre_commit_fields [simp]:
  "points (pre_commit s l) = points s"
  "n_pts (pre_commit s l) = n_pts s"
  "sorted_x_pt (pre_commit s l) = sorted_x_pt s"
  "sorted_y_pt (pre_commit s l) = sorted_y_pt s"
  "all_lines (pre_commit s l) = all_lines s @ [l]"
  "rem_cons (pre_commit s l) = rem_cons s"
  by (simp_all add: pre_commit_def)

lemma same_geometry_pre_commit: "same_geometry s (pre_commit s l)"
  by (simp add: same_geometry_def pre_commit_def)

lemma deref_pre_commit:
  "ln_axis (deref (pre_commit s l) l) = ln_axis (deref s l)"
  "ln_inter (deref (pre_commit s l) l) = ln_inter (deref s l)"
  using deref_set_committed [of s l 1]
  by (simp_all add: pre_commit_def deref_def split: line_ref.splits)

lemma commit_eq:
  "commit s l =
     disconnect_across (ls_of s (ln_axis (deref s l)))
       [0..<nat (get_point_nearest_inter s (ln_axis (deref s l)) (ln_inter (deref s l)) + 1)]
       [nat (get_point_nearest_inter s (ln_axis (deref s l)) (ln_inter (deref s l)) + 1)..<n_pts s]
       (pre_commit s l)"
proof -
  have "commit s l =
     disconnect_across (ls_of (pre_commit s l) (ln_axis (deref (pre_commit s l) l)))
       [0..<nat (get_point_nearest_inter (pre_commit s l) (ln_axis (deref (pre_commit s l) l))
                   (ln_inter (deref (pre_commit s l) l)) + 1)]
       [nat (get_point_nearest_inter (pre_commit s l) (ln_axis (deref (pre_commit s l) l))
                   (ln_inter (deref (pre_commit s l) l)) + 1)..<n_pts (pre_commit s l)]
       (pre_commit s l)"
    unfolding commit_def Let_def pre_commit_def
    by (simp add: deref_def ls_of_def split: line_ref.splits)
  then show ?thesis
    by (simp add: deref_pre_commit get_point_nearest_inter_cong [OF same_geometry_pre_commit]
          ls_of_def)
qed

lemma con_mono_disconnect_points: "con (disconnect_points s a b) i j \<Longrightarrow> con s i j"
  by (simp add: con_disconnect_points)

lemma con_mono_disconnect_row: "con (disconnect_row ls i js s) a b \<Longrightarrow> con s a b"
proof (induction js arbitrary: s)
  case Nil
  then show ?case by (simp add: disconnect_row_def)
next
  case (Cons j js)
  from Cons.prems have "con (disconnect_row ls i js
      (disconnect_points s (pt_self_ix (points s (ls ! i))) (pt_self_ix (points s (ls ! j))))) a b"
    by (simp add: disconnect_row_def)
  then show ?case
    using Cons.IH con_mono_disconnect_points by blast
qed

lemma con_mono_disconnect_across: "con (disconnect_across ls ixs js s) a b \<Longrightarrow> con s a b"
proof (induction ixs arbitrary: s)
  case Nil
  then show ?case by (simp add: disconnect_across_def)
next
  case (Cons i ixs)
  from Cons.prems have "con (disconnect_across ls ixs js (disconnect_row ls i js s)) a b"
    by (simp add: disconnect_across_def)
  then show ?case
    using Cons.IH con_mono_disconnect_row by blast
qed

lemma disconnect_row_clears:
  "same_frame s0 s \<Longrightarrow> j \<in> set js \<Longrightarrow>
   \<not> con (disconnect_row ls i js s)
         (pt_self_ix (points s0 (ls ! i))) (pt_self_ix (points s0 (ls ! j)))"
proof (induction js arbitrary: s)
  case Nil
  then show ?case by simp
next
  case (Cons x js)
  let ?a = "pt_self_ix (points s0 (ls ! i))"
  let ?s1 = "disconnect_points s ?a (pt_self_ix (points s0 (ls ! x)))"
  have self: "\<And>k. pt_self_ix (points s k) = pt_self_ix (points s0 k)"
    using Cons.prems(1) by (simp add: same_frame_def)
  have step: "disconnect_row ls i (x # js) s = disconnect_row ls i js ?s1"
    by (simp add: disconnect_row_def self)
  have fr: "same_frame s0 ?s1"
    using Cons.prems(1) same_frame_disconnect_points same_frame_trans by blast
  show ?case
  proof (cases "j = x")
    case True
    have "\<not> con ?s1 ?a (pt_self_ix (points s0 (ls ! j)))"
      using True by (simp add: con_disconnect_points)
    then show ?thesis
      unfolding step using con_mono_disconnect_row by blast
  next
    case False
    with Cons.prems(2) have "j \<in> set js" by simp
    then show ?thesis
      unfolding step using Cons.IH [OF fr] by simp
  qed
qed

lemma disconnect_across_clears:
  "same_frame s0 s \<Longrightarrow> i \<in> set ixs \<Longrightarrow> j \<in> set js \<Longrightarrow>
   \<not> con (disconnect_across ls ixs js s)
         (pt_self_ix (points s0 (ls ! i))) (pt_self_ix (points s0 (ls ! j)))"
proof (induction ixs arbitrary: s)
  case Nil
  then show ?case by simp
next
  case (Cons x ixs)
  have step: "disconnect_across ls (x # ixs) js s
      = disconnect_across ls ixs js (disconnect_row ls x js s)"
    by (simp add: disconnect_across_def)
  have fr: "same_frame s0 (disconnect_row ls x js s)"
    using Cons.prems(1) same_frame_disconnect_row same_frame_trans by blast
  show ?case
  proof (cases "i = x")
    case True
    have "\<not> con (disconnect_row ls x js s)
         (pt_self_ix (points s0 (ls ! i))) (pt_self_ix (points s0 (ls ! j)))"
      using True disconnect_row_clears [OF Cons.prems(1) Cons.prems(3)] by simp
    then show ?thesis
      unfolding step using con_mono_disconnect_across by blast
  next
    case False
    with Cons.prems(2) have "i \<in> set ixs" by simp
    then show ?thesis
      unfolding step using Cons.IH [OF fr _ Cons.prems(3)] by simp
  qed
qed

lemma same_frame_commit: "same_frame (pre_commit s l) (commit s l)"
  unfolding commit_eq by (rule same_frame_disconnect_across)

lemma same_geometry_commit: "same_geometry s (commit s l)"
  using same_frame_geometry [OF same_frame_commit [of s l]] same_geometry_pre_commit [of s l]
  by (simp add: same_geometry_def)

lemma deref_commit:
  "ln_axis (deref (commit s l) l) = ln_axis (deref s l)"
  "ln_inter (deref (commit s l) l) = ln_inter (deref s l)"
  "ln_committed (deref (commit s l) l) = ln_committed (deref (pre_commit s l) l)"
proof -
  have "x_lines (commit s l) = x_lines (pre_commit s l)"
    and "y_lines (commit s l) = y_lines (pre_commit s l)"
    using same_frame_commit [of s l] by (simp_all add: same_frame_def)
  then have "deref (commit s l) l = deref (pre_commit s l) l"
    by (cases l) (simp_all add: deref_def)
  then show "ln_axis (deref (commit s l) l) = ln_axis (deref s l)"
    and "ln_inter (deref (commit s l) l) = ln_inter (deref s l)"
    and "ln_committed (deref (commit s l) l) = ln_committed (deref (pre_commit s l) l)"
    by (simp_all add: deref_pre_commit)
qed

lemma commit_clears:
  assumes "int i \<le> get_point_nearest_inter s (ln_axis (deref s l)) (ln_inter (deref s l))"
    and "get_point_nearest_inter s (ln_axis (deref s l)) (ln_inter (deref s l)) < int j"
    and "j < n_pts s"
  shows "\<not> con (commit s l)
           (pt_self_ix (points s (ls_of s (ln_axis (deref s l)) ! i)))
           (pt_self_ix (points s (ls_of s (ln_axis (deref s l)) ! j)))"
proof -
  let ?p = "get_point_nearest_inter s (ln_axis (deref s l)) (ln_inter (deref s l))"
  have i: "i \<in> set [0..<nat (?p + 1)]" using assms(1) by auto
  have j: "j \<in> set [nat (?p + 1)..<n_pts s]" using assms(2,3) by auto
  have "\<not> con (commit s l)
           (pt_self_ix (points (pre_commit s l) (ls_of s (ln_axis (deref s l)) ! i)))
           (pt_self_ix (points (pre_commit s l) (ls_of s (ln_axis (deref s l)) ! j)))"
    unfolding commit_eq
    by (rule disconnect_across_clears [OF same_frame_refl i j])
  then show ?thesis by simp
qed

lemma graph_ok_cong:
  assumes "n_pts s' = n_pts s" "rem_cons s' = rem_cons s" "points s' = points s"
  shows "graph_ok s' = graph_ok s"
proof -
  have "con s' = con s" using assms by (simp add: con_def fun_eq_iff)
  then show ?thesis
    using assms by (simp add: graph_ok_def connected_pairs_def)
qed

lemma wf_state_geometry: "same_geometry s s' \<Longrightarrow> wf_state s \<Longrightarrow> wf_state s'"
  by (simp add: wf_state_def same_geometry_def)

lemma nth_ls_of_less:
  "wf_state s \<Longrightarrow> i < n_pts s \<Longrightarrow> ls_of s a ! i < n_pts s"
  by (auto simp: wf_state_def ls_of_def)

lemma self_ls_of:
  "wf_state s \<Longrightarrow> i < n_pts s \<Longrightarrow> pt_self_ix (points s (ls_of s a ! i)) = ls_of s a ! i"
  using nth_ls_of_less [of s i a] by (simp add: wf_state_def)

lemma inv_disconnect_row:
  assumes wf: "wf_state s0" and i: "i < n_pts s0" and js: "\<forall>j \<in> set js. j < n_pts s0"
    and s: "same_frame s0 s \<and> graph_ok s"
  shows "same_frame s0 (disconnect_row (ls_of s0 a) i js s) \<and>
         graph_ok (disconnect_row (ls_of s0 a) i js s)"
  unfolding disconnect_row_def
proof (rule fold_invariant [where P = "\<lambda>t. same_frame s0 t \<and> graph_ok t"])
  show "same_frame s0 s \<and> graph_ok s" by (rule s)
next
  fix j t
  assume j: "j \<in> set js" and t: "same_frame s0 t \<and> graph_ok t"
  let ?a = "pt_self_ix (points t (ls_of s0 a ! i))"
  let ?b = "pt_self_ix (points t (ls_of s0 a ! j))"
  have self: "\<And>k. pt_self_ix (points t k) = pt_self_ix (points s0 k)"
    and n: "n_pts t = n_pts s0"
    using t by (simp_all add: same_frame_def)
  have a: "?a < n_pts t"
    using self_ls_of [OF wf i] nth_ls_of_less [OF wf i] by (simp add: self n)
  have "j < n_pts s0" using j js by simp
  then have b: "?b < n_pts t"
    using self_ls_of [OF wf] nth_ls_of_less [OF wf] by (simp add: self n)
  show "same_frame s0 (disconnect_points t ?a ?b) \<and> graph_ok (disconnect_points t ?a ?b)"
    using t a b same_frame_disconnect_points [of t ?a ?b] graph_ok_disconnect_points [of t ?a ?b]
    by (auto intro: same_frame_trans)
qed

lemma inv_disconnect_across:
  assumes wf: "wf_state s0" and ixs: "\<forall>i \<in> set ixs. i < n_pts s0"
    and js: "\<forall>j \<in> set js. j < n_pts s0"
    and s: "same_frame s0 s \<and> graph_ok s"
  shows "same_frame s0 (disconnect_across (ls_of s0 a) ixs js s) \<and>
         graph_ok (disconnect_across (ls_of s0 a) ixs js s)"
  unfolding disconnect_across_def
proof (rule fold_invariant [where P = "\<lambda>t. same_frame s0 t \<and> graph_ok t"])
  show "same_frame s0 s \<and> graph_ok s" by (rule s)
next
  fix i t
  assume "i \<in> set ixs" and t: "same_frame s0 t \<and> graph_ok t"
  then have "i < n_pts s0" using ixs by simp
  then show "same_frame s0 (disconnect_row (ls_of s0 a) i js t) \<and>
      graph_ok (disconnect_row (ls_of s0 a) i js t)"
    using inv_disconnect_row [OF wf _ js t] by simp
qed

lemma graph_ok_commit:
  assumes "wf_state s" "graph_ok s"
  shows "graph_ok (commit s l)"
proof -
  let ?a = "ln_axis (deref s l)"
  let ?p = "get_point_nearest_inter s ?a (ln_inter (deref s l))"
  let ?s0 = "pre_commit s l"
  have wf0: "wf_state ?s0"
    using assms(1) same_geometry_pre_commit wf_state_geometry by blast
  have g0: "graph_ok ?s0"
    using assms(2) graph_ok_cong [of ?s0 s] by simp
  have ls: "ls_of s ?a = ls_of ?s0 ?a" by (simp add: ls_of_def)
  have ixs: "\<forall>i \<in> set [0..<nat (?p + 1)]. i < n_pts ?s0"
    using get_point_nearest_inter_range(2) [of s ?a "ln_inter (deref s l)"] by auto
  have js: "\<forall>j \<in> set [nat (?p + 1)..<n_pts s]. j < n_pts ?s0" by simp
  show ?thesis
    unfolding commit_eq ls
    using inv_disconnect_across [OF wf0 ixs js, of ?s0 ?a] g0 same_frame_refl by blast
qed

lemma wf_state_commit: "wf_state s \<Longrightarrow> wf_state (commit s l)"
  using same_geometry_commit wf_state_geometry by blast

definition same_layout :: "state \<Rightarrow> state \<Rightarrow> bool" where
  "same_layout s s' =
     (x_lines s' = x_lines s \<and> y_lines s' = y_lines s \<and> all_lines s' = all_lines s \<and>
      n_pts s' = n_pts s \<and> sorted_x_pt s' = sorted_x_pt s \<and>
      sorted_y_pt s' = sorted_y_pt s \<and>
      (\<forall>k. pt_x (points s' k) = pt_x (points s k) \<and>
           pt_y (points s' k) = pt_y (points s k)))"

lemma same_layout_refl: "same_layout s s"
  by (simp add: same_layout_def)

lemma same_layout_trans: "same_layout s t \<Longrightarrow> same_layout t u \<Longrightarrow> same_layout s u"
  by (simp add: same_layout_def)

lemma same_layout_fold:
  assumes "\<And>x t. same_layout t (f x t)"
  shows "same_layout s (fold f xs s)"
proof (induction xs arbitrary: s)
  case Nil
  show ?case by (simp add: same_layout_refl)
next
  case (Cons x xs)
  have "same_layout s (f x s)" by (rule assms)
  moreover have "same_layout (f x s) (fold f xs (f x s))" by (rule Cons.IH)
  ultimately show ?case by (auto intro: same_layout_trans)
qed

lemma same_layout_malloc: "same_layout s (malloc_connections i s)"
  by (simp add: same_layout_def malloc_connections_def)

lemma same_layout_init_entry: "same_layout s (init_entry i j s)"
  by (simp add: same_layout_def init_entry_def set_con_def add_con_cnt_def Let_def)

lemma same_layout_init_row: "same_layout s (init_row i s)"
proof -
  let ?s1 = "s\<lparr>points := (points s)(i := (points s i)\<lparr>pt_self_ix := i\<rparr>)\<rparr>"
  have "same_layout s ?s1" by (simp add: same_layout_def)
  moreover have "same_layout ?s1 (fold (init_entry i) [0..<n_pts s] ?s1)"
    by (rule same_layout_fold) (rule same_layout_init_entry)
  ultimately show ?thesis
    unfolding init_row_def by (rule same_layout_trans)
qed

lemma malloc_fold_props:
  "rem_cons (fold malloc_connections xs s) = rem_cons s"
  "pt_self_ix (points (fold malloc_connections xs s) k) = pt_self_ix (points s k)"
  by (induction xs arbitrary: s) (simp_all add: malloc_connections_def)

lemma init_entry_props:
  "pt_connections (points (init_entry i j s) k) m =
     (if k = i \<and> m = j then (if i \<noteq> j then Some j else None)
      else pt_connections (points s k) m)"
  "pt_self_ix (points (init_entry i j s) k) = pt_self_ix (points s k)"
  "rem_cons (init_entry i j s) = rem_cons s + (if i \<noteq> j then 1 else 0)"
  by (simp_all add: init_entry_def set_con_def add_con_cnt_def Let_def)

lemma init_entry_fold_props:
  "pt_connections (points (fold (init_entry i) js s) k) m =
     (if k = i \<and> m \<in> set js then (if i \<noteq> m then Some m else None)
      else pt_connections (points s k) m)"
  "pt_self_ix (points (fold (init_entry i) js s) k) = pt_self_ix (points s k)"
  "rem_cons (fold (init_entry i) js s) = rem_cons s + int (length (filter (\<lambda>j. i \<noteq> j) js))"
proof (induction js arbitrary: s)
  case Nil
  {
    case 1 show ?case by simp
  next
    case 2 show ?case by simp
  next
    case 3 show ?case by simp
  }
next
  case (Cons j js)
  {
    case 1 show ?case by (auto simp: Cons.IH(1) init_entry_props)
  next
    case 2 show ?case by (simp add: Cons.IH(2) init_entry_props)
  next
    case 3 show ?case by (simp add: Cons.IH(3) init_entry_props)
  }
qed

lemma length_filter_neq_upt:
  "length (filter (\<lambda>j. i \<noteq> j) [0..<n]) = (if i < n then n - 1 else n)"
  by (induction n) auto

lemma init_row_props:
  "pt_connections (points (init_row i s) k) m =
     (if k = i \<and> m < n_pts s then (if i \<noteq> m then Some m else None)
      else pt_connections (points s k) m)"
  "pt_self_ix (points (init_row i s) k) = (if k = i then i else pt_self_ix (points s k))"
  "rem_cons (init_row i s) = rem_cons s + (if i < n_pts s then int (n_pts s) - 1 else int (n_pts s))"
  by (auto simp: init_row_def init_entry_fold_props length_filter_neq_upt)

lemma n_pts_init_row [simp]: "n_pts (init_row i s) = n_pts s"
  using same_layout_init_row [of s i] by (simp add: same_layout_def)

lemma init_row_fold_props:
  "n_pts (fold init_row ixs s) = n_pts s"
  "pt_connections (points (fold init_row ixs s) k) m =
     (if k \<in> set ixs \<and> m < n_pts s then (if k \<noteq> m then Some m else None)
      else pt_connections (points s k) m)"
  "pt_self_ix (points (fold init_row ixs s) k) = (if k \<in> set ixs then k else pt_self_ix (points s k))"
  "(\<forall>i \<in> set ixs. i < n_pts s) \<Longrightarrow>
     rem_cons (fold init_row ixs s) = rem_cons s + int (length ixs) * (int (n_pts s) - 1)"
proof (induction ixs arbitrary: s)
  case Nil
  {
    case 1 show ?case by simp
  next
    case 2 show ?case by simp
  next
    case 3 show ?case by simp
  next
    case 4 show ?case by simp
  }
next
  case (Cons i ixs)
  {
    case 1 show ?case by (simp add: Cons.IH(1))
  next
    case 2 show ?case by (auto simp: Cons.IH(2) init_row_props)
  next
    case 3 show ?case by (auto simp: Cons.IH(3) init_row_props)
  next
    case 4
    then show ?case by (simp add: Cons.IH(4) init_row_props algebra_simps)
  }
qed

lemma fscanf_d_fits:
  "fscanf_d its v = Some (r, v', its') \<Longrightarrow> fits_int v \<Longrightarrow> fits_int v'"
  by (cases "(its, v)" rule: fscanf_d.cases) (auto split: if_splits)

lemma fscanf_d_d_fits:
  "fscanf_d_d its x y = Some (ret, x', y', its') \<Longrightarrow> fits_int y \<Longrightarrow> fits_int y'"
  by (auto simp: fscanf_d_d_def split: option.splits if_splits dest: fscanf_d_fits)

text \<open>What the reading loop leaves: the points it stored, and nothing else changed.\<close>

lemma read_points_props:
  assumes "read_points its i x y s = Some (j, s')" "i \<le> MAX_PTS" "fits_int y"
  shows "i \<le> j \<and> j \<le> MAX_PTS \<and>
         sorted_x_pt s' = sorted_x_pt s \<and> sorted_y_pt s' = sorted_y_pt s \<and>
         x_lines s' = x_lines s \<and> y_lines s' = y_lines s \<and> all_lines s' = all_lines s \<and>
         rem_cons s' = rem_cons s \<and> n_pts s' = n_pts s \<and>
         (\<forall>k < i. points s' k = points s k) \<and>
         (\<forall>k. i \<le> k \<and> k < j \<longrightarrow>
            0 \<le> pt_x (points s' k) \<and> pt_x (points s' k) < int MAX_PTS \<and>
            fits_int (pt_y (points s' k)))"
  using assms
proof (induction its i x y s rule: read_points.induct)
  case (1 its i x y s)
  from "1.prems"(1) obtain ret x' y' its' where
    sc: "fscanf_d_d its x y = Some (ret, x', y', its')"
    by (subst (asm) read_points.simps) (auto split: option.splits)
  have fy: "fits_int y'"
    using sc "1.prems"(3) by (rule fscanf_d_d_fits)
  show ?case
  proof (cases "ret \<noteq> EOF \<and> i < MAX_PTS")
    case False
    then have "j = i" "s' = s"
      using "1.prems"(1) sc by (subst (asm) read_points.simps, auto)+
    then show ?thesis using "1.prems"(2) by auto
  next
    case True
    let ?s1 = "s\<lparr>points := store_point (points s) i x' y',
                  x_pt_taken := (x_pt_taken s)[nat x' := 1],
                  y_pt_taken := (y_pt_taken s)[i := 1]\<rparr>"
    have xr: "0 \<le> x' \<and> x' < int MAX_PTS"
      using "1.prems"(1) sc True
      by (subst (asm) read_points.simps) (auto split: if_splits)
    then have rec: "read_points its' (i + 1) x' y' ?s1 = Some (j, s')"
      using "1.prems"(1) sc True by (subst (asm) read_points.simps) auto
    have ih: "i + 1 \<le> j \<and> j \<le> MAX_PTS \<and>
         sorted_x_pt s' = sorted_x_pt ?s1 \<and> sorted_y_pt s' = sorted_y_pt ?s1 \<and>
         x_lines s' = x_lines ?s1 \<and> y_lines s' = y_lines ?s1 \<and> all_lines s' = all_lines ?s1 \<and>
         rem_cons s' = rem_cons ?s1 \<and> n_pts s' = n_pts ?s1 \<and>
         (\<forall>k < i + 1. points s' k = points ?s1 k) \<and>
         (\<forall>k. i + 1 \<le> k \<and> k < j \<longrightarrow>
            0 \<le> pt_x (points s' k) \<and> pt_x (points s' k) < int MAX_PTS \<and>
            fits_int (pt_y (points s' k)))"
      using True xr fy by (intro "1.IH" [OF sc refl refl refl _ _ rec]) simp_all
    have at_i: "points s' i = store_point (points s) i x' y' i"
      using ih by simp
    have "0 \<le> pt_x (points s' k) \<and> pt_x (points s' k) < int MAX_PTS \<and>
        fits_int (pt_y (points s' k))" if "i \<le> k" "k < j" for k
    proof (cases "k = i")
      case True
      then show ?thesis using at_i xr fy by (simp add: store_point_def)
    next
      case False
      then show ?thesis using ih that by simp
    qed
    moreover have "\<forall>k < i. points s' k = points s k"
      using ih by (simp add: store_point_def)
    ultimately show ?thesis using ih by simp
  qed
qed

lemma read_instance_file_Inr:
  assumes "read_instance_file s file = Inr s1"
  shows "sorted_x_pt s1 = [0..<n_pts s1]" "sorted_y_pt s1 = [0..<n_pts s1]"
    "x_lines s1 = x_lines s" "y_lines s1 = y_lines s" "all_lines s1 = all_lines s"
    "rem_cons s1 = rem_cons s" "n_pts s1 \<le> MAX_PTS"
    "\<forall>k < n_pts s1. 0 \<le> pt_x (points s1 k) \<and> pt_x (points s1 k) < int MAX_PTS \<and>
        fits_int (pt_y (points s1 k))"
proof -
  let ?s0 = "s\<lparr>x_pt_taken := replicate MAX_PTS 0, y_pt_taken := replicate MAX_PTS 0\<rparr>"
  from assms obtain its ret n its1 i s2 where
    rp: "read_points its1 0 0 0 ?s0 = Some (i, s2)"
    and s1: "s1 = s2\<lparr>n_pts := i, sorted_x_pt := [0..<i], sorted_y_pt := [0..<i]\<rparr>"
    by (auto simp: read_instance_file_def split: option.splits if_splits)
  have f0: "fits_int 0" by (simp add: fits_int_def)
  note pr = read_points_props [OF rp _ f0]
  from pr show "sorted_x_pt s1 = [0..<n_pts s1]" "sorted_y_pt s1 = [0..<n_pts s1]"
    "x_lines s1 = x_lines s" "y_lines s1 = y_lines s" "all_lines s1 = all_lines s"
    "rem_cons s1 = rem_cons s" "n_pts s1 \<le> MAX_PTS"
    "\<forall>k < n_pts s1. 0 \<le> pt_x (points s1 k) \<and> pt_x (points s1 k) < int MAX_PTS \<and>
        fits_int (pt_y (points s1 k))"
    by (simp_all add: s1)
qed

text \<open>
  An instance file of integers: the declared number of points, then the coordinate
  pairs. It is well formed when every integer fits an \<open>int\<close> and the x coordinate
  of each pair that the loop stores is inside \<open>x_pt_taken\<close>.
\<close>

definition instance_file :: "int \<Rightarrow> (int \<times> int) list \<Rightarrow> item list" where
  "instance_file n ps = Num n # concat (map (\<lambda>(x, y). [Num x, Num y]) ps)"

definition well_formed :: "int \<Rightarrow> (int \<times> int) list \<Rightarrow> bool" where
  "well_formed n ps =
     (fits_int n \<and> list_all (\<lambda>(x, y). fits_int x \<and> fits_int y) ps \<and>
      list_all (\<lambda>(x, y). 0 \<le> x \<and> x < int MAX_PTS) (take MAX_PTS ps))"

lemma read_points_pairs:
  assumes "list_all (\<lambda>(x, y). fits_int x \<and> fits_int y) ps"
    and "list_all (\<lambda>(x, y). 0 \<le> x \<and> x < int MAX_PTS) (take (MAX_PTS - i) ps)"
    and "i \<le> MAX_PTS"
  shows "\<exists>s'. read_points (concat (map (\<lambda>(x, y). [Num x, Num y]) ps)) i x0 y0 s
           = Some (min MAX_PTS (i + length ps), s')"
  using assms
proof (induction ps arbitrary: i x0 y0 s)
  case Nil
  then show ?case
    by (subst read_points.simps) (simp add: fscanf_d_d_def EOF_def)
next
  case (Cons p ps)
  obtain a b where p: "p = (a, b)" by (cases p)
  have fit: "fits_int a" "fits_int b" using Cons.prems(1) by (simp_all add: p)
  have sc: "fscanf_d_d (concat (map (\<lambda>(x, y). [Num x, Num y]) (p # ps))) x0 y0
      = Some (2, a, b, concat (map (\<lambda>(x, y). [Num x, Num y]) ps))"
    using fit by (simp add: p fscanf_d_d_def)
  show ?case
  proof (cases "i < MAX_PTS")
    case False
    then have "i = MAX_PTS" using Cons.prems(3) by simp
    then show ?thesis
      by (subst read_points.simps, subst sc) simp
  next
    case True
    then obtain d where d: "MAX_PTS - i = Suc d" by (cases "MAX_PTS - i") simp_all
    have xr: "0 \<le> a \<and> a < int MAX_PTS"
      using Cons.prems(2) by (simp add: d p)
    have d': "MAX_PTS - (i + 1) = d" using d by simp
    have rest: "list_all (\<lambda>(x, y). 0 \<le> x \<and> x < int MAX_PTS) (take (MAX_PTS - (i + 1)) ps)"
      unfolding d' using Cons.prems(2) by (simp add: d)
    let ?s1 = "s\<lparr>points := store_point (points s) i a b,
                  x_pt_taken := (x_pt_taken s)[nat a := 1],
                  y_pt_taken := (y_pt_taken s)[i := 1]\<rparr>"
    from Cons.IH [of "i + 1" a b ?s1] Cons.prems(1) rest True
    obtain s' where "read_points (concat (map (\<lambda>(x, y). [Num x, Num y]) ps)) (i + 1) a b ?s1
        = Some (min MAX_PTS (i + 1 + length ps), s')"
      by auto
    then show ?thesis
      using True xr by (subst read_points.simps, subst sc) (simp add: EOF_def)
  qed
qed

lemma sort_points_fields [simp]:
  "n_pts (sort_points s) = n_pts s"
  "points (sort_points s) = points s"
  "x_lines (sort_points s) = x_lines s"
  "y_lines (sort_points s) = y_lines s"
  "all_lines (sort_points s) = all_lines s"
  "rem_cons (sort_points s) = rem_cons s"
  "length (sorted_x_pt (sort_points s)) = length (sorted_x_pt s)"
  "length (sorted_y_pt (sort_points s)) = length (sorted_y_pt s)"
  "set (sorted_x_pt (sort_points s)) = set (sorted_x_pt s)"
  "set (sorted_y_pt (sort_points s)) = set (sorted_y_pt s)"
  by (simp_all add: sort_points_def)

text \<open>What \<open>initialize_connections\<close> leaves when it returns.\<close>

definition init_loops :: "state \<Rightarrow> state" where
  "init_loops s =
     (let s1 = fold malloc_connections [0..<n_pts s] s
      in fold init_row [0..<n_pts s1] s1)"

lemma initialize_connections_eq:
  "initialize_connections s =
     (if rem_cons (init_loops s) \<noteq> int (n_pts (init_loops s)) * (int (n_pts (init_loops s)) - 1)
      then Inl QuitRemCons else Inr (init_loops s))"
  by (simp add: initialize_connections_def init_loops_def Let_def)

lemma same_layout_init_loops: "same_layout s (init_loops s)"
proof -
  let ?s1 = "fold malloc_connections [0..<n_pts s] s"
  have "same_layout s ?s1"
    by (rule same_layout_fold) (rule same_layout_malloc)
  moreover have "same_layout ?s1 (fold init_row [0..<n_pts ?s1] ?s1)"
    by (rule same_layout_fold) (rule same_layout_init_row)
  ultimately show ?thesis
    unfolding init_loops_def Let_def by (rule same_layout_trans)
qed

lemma n_pts_init_loops [simp]: "n_pts (init_loops s) = n_pts s"
  using same_layout_init_loops [of s] by (simp add: same_layout_def)

lemma n_pts_malloc_fold [simp]: "n_pts (fold malloc_connections xs s) = n_pts s"
  using same_layout_fold [of malloc_connections s xs, OF same_layout_malloc]
  by (simp add: same_layout_def)

lemma init_loops_props:
  "i < n_pts s \<Longrightarrow> j < n_pts s \<Longrightarrow>
     pt_connections (points (init_loops s) i) j = (if i \<noteq> j then Some j else None)"
  "k < n_pts s \<Longrightarrow> pt_self_ix (points (init_loops s) k) = k"
  "rem_cons (init_loops s) = rem_cons s + int (n_pts s) * (int (n_pts s) - 1)"
  by (simp_all add: init_loops_def Let_def init_row_fold_props malloc_fold_props)

lemma initialize_connections_returns:
  "rem_cons s = 0 \<Longrightarrow> initialize_connections s = Inr (init_loops s)"
  by (simp add: initialize_connections_eq init_loops_props)

lemma initialize_connections_Inr:
  assumes "initialize_connections s = Inr s'"
  shows "s' = init_loops s" "rem_cons s' = int (n_pts s) * (int (n_pts s) - 1)"
  using assms by (simp_all add: initialize_connections_eq split: if_splits)

definition pairs_below :: "nat \<Rightarrow> (nat \<times> nat) set" where
  "pairs_below n = {(i, j). i < j \<and> j < n}"

lemma finite_pairs_below: "finite (pairs_below n)"
proof -
  have "pairs_below n \<subseteq> {..<n} \<times> {..<n}" by (auto simp: pairs_below_def)
  then show ?thesis by (rule finite_subset) simp
qed

lemma pairs_below_Suc:
  "pairs_below (Suc n) = pairs_below n \<union> (\<lambda>i. (i, n)) ` {..<n}"
  by (auto simp: pairs_below_def less_Suc_eq)

lemma card_pairs_below: "2 * card (pairs_below n) = n * (n - 1)"
proof (induction n)
  case 0
  show ?case by (simp add: pairs_below_def)
next
  case (Suc n)
  have disj: "pairs_below n \<inter> (\<lambda>i. (i, n)) ` {..<n} = {}"
    by (auto simp: pairs_below_def)
  have "card ((\<lambda>i. (i, n)) ` {..<n}) = n"
    by (simp add: card_image inj_on_def)
  then have "card (pairs_below (Suc n)) = card (pairs_below n) + n"
    unfolding pairs_below_Suc
    by (simp add: card_Un_disjoint [OF finite_pairs_below _ disj])
  then have "2 * card (pairs_below (Suc n)) = n * (n - 1) + 2 * n"
    using Suc.IH by simp
  also have "\<dots> = Suc n * (Suc n - 1)"
    by (cases n) simp_all
  finally show ?case .
qed

lemma graph_ok_init_loops:
  assumes "rem_cons (init_loops s) = int (n_pts s) * (int (n_pts s) - 1)"
  shows "graph_ok (init_loops s)"
proof -
  have c: "con (init_loops s) i j = (i \<noteq> j)" if "i < n_pts s" "j < n_pts s" for i j
    using that by (simp add: con_def init_loops_props)
  have "connected_pairs (init_loops s) = pairs_below (n_pts s)"
    using c by (auto simp: connected_pairs_def pairs_below_def)
  then have "2 * int (card (connected_pairs (init_loops s))) = int (n_pts s * (n_pts s - 1))"
    using card_pairs_below [of "n_pts s"] by (metis of_nat_mult of_nat_numeral)
  also have "\<dots> = int (n_pts s) * (int (n_pts s) - 1)"
    by (cases "n_pts s") (simp_all add: algebra_simps)
  finally show ?thesis
    using c assms by (auto simp: graph_ok_def)
qed

lemma wf_state_init_loops:
  assumes "length (sorted_x_pt s) = n_pts s" "length (sorted_y_pt s) = n_pts s"
    "\<forall>k \<in> set (sorted_x_pt s). k < n_pts s" "\<forall>k \<in> set (sorted_y_pt s). k < n_pts s"
  shows "wf_state (init_loops s)"
  using assms same_layout_init_loops [of s]
  by (simp add: wf_state_def same_layout_def init_loops_props)

lemma half_of_nonneg: "0 \<le> spn \<Longrightarrow> half_of spn = spn div 2"
proof -
  assume "0 \<le> spn"
  moreover have "(spn - 1) div 2 = spn div 2" if "spn mod 2 = 1"
    using that by presburger
  ultimately show ?thesis
    by (auto simp: half_of_def signed_divide_int_def signed_modulo_int_def sgn_if)
qed

definition add_lines :: "state \<Rightarrow> axis \<Rightarrow> line list \<Rightarrow> state" where
  "add_lines s a lns =
     (if a = X then s\<lparr>x_lines := x_lines s @ lns\<rparr> else s\<lparr>y_lines := y_lines s @ lns\<rparr>)"

lemma add_lines_simps:
  "add_line s a l = add_lines s a [l]"
  "add_lines (add_lines s a xs) a ys = add_lines s a (xs @ ys)"
  "add_lines s a [] = s"
  by (simp_all add: add_line_def add_lines_def)

lemma add_lines_fields [simp]:
  "points (add_lines s a lns) = points s"
  "n_pts (add_lines s a lns) = n_pts s"
  "sorted_x_pt (add_lines s a lns) = sorted_x_pt s"
  "sorted_y_pt (add_lines s a lns) = sorted_y_pt s"
  "all_lines (add_lines s a lns) = all_lines s"
  "rem_cons (add_lines s a lns) = rem_cons s"
  "ls_of (add_lines s a lns) b = ls_of s b"
  "pt_at (add_lines s a lns) b k = pt_at s b k"
  by (simp_all add: add_lines_def ls_of_def pt_at_def)

text \<open>The line \<open>div_axis\<close> puts between the sorted positions \<open>k\<close> and \<open>k + 1\<close>.\<close>

definition line_between :: "state \<Rightarrow> axis \<Rightarrow> int \<Rightarrow> line" where
  "line_between s a k =
     mid_line a (points s (ls_of s a ! nat k)) (points s (ls_of s a ! nat (k + 1)))"

lemma line_between_add_lines [simp]:
  "line_between (add_lines s a lns) b k = line_between s b k"
  by (simp add: line_between_def)

lemma div_axis_Some:
  assumes "0 \<le> from" "from \<le> to" "to < int (length (ls_of s a))"
  shows "\<exists>lns. div_axis s a from to = Some (add_lines s a lns) \<and>
           int (length lns) = max 0 (to - from - 1) \<and>
           (\<forall>l \<in> set lns. \<exists>k. from < k \<and> k < to \<and> l = line_between s a k)"
  using assms
proof (induction "nat (to - from)" arbitrary: s "from" to rule: less_induct)
  case less
  let ?spn = "to - from"
  let ?half = "?spn div 2"
  show ?case
  proof (cases "?spn \<le> 1")
    case True
    then have "div_axis s a from to = Some (add_lines s a [])"
      using less.prems by (subst div_axis.simps) (auto simp: add_lines_simps Let_def)
    then show ?thesis using True by auto
  next
    case False
    then have spn: "2 \<le> ?spn" by simp
    then have half: "half_of ?spn = ?half" "1 \<le> ?half" "?half + 1 \<le> ?spn"
      by (simp_all add: half_of_nonneg)
    have p1: "pt_at s a (from + ?half) = Some (points s (ls_of s a ! nat (from + ?half)))"
      using less.prems half by (simp add: pt_at_def)
    have p2: "pt_at s a (from + (?half + 1))
        = Some (points s (ls_of s a ! nat (from + ?half + 1)))"
      using less.prems half by (simp add: pt_at_def add.assoc)
    let ?l0 = "line_between s a (from + ?half)"
    let ?s1 = "add_lines s a [?l0]"
    have unfold: "div_axis s a from to =
        (if ?spn \<noteq> 2 then
           Option.bind (div_axis ?s1 a from (from + ?half))
             (\<lambda>s2. div_axis s2 a (from + ?half) to)
         else Some ?s1)"
      using spn half p1 p2
      by (subst div_axis.simps) (simp add: Let_def add_lines_simps line_between_def)
    show ?thesis
    proof (cases "?spn = 2")
      case True
      then have "div_axis s a from to = Some ?s1" by (simp add: unfold)
      moreover have "from < from + ?half \<and> from + ?half < to" using True by simp
      then have "\<exists>k. from < k \<and> k < to \<and> ?l0 = line_between s a k"
        by (intro exI [of _ "from + ?half"]) simp
      then have "\<forall>l \<in> set [?l0]. \<exists>k. from < k \<and> k < to \<and> l = line_between s a k"
        by simp
      moreover have "int (length [?l0]) = max 0 (to - from - 1)" using True by simp
      ultimately show ?thesis by blast
    next
      case False
      with spn have spn3: "3 \<le> ?spn" by simp
      have "nat (from + ?half - from) < nat (to - from)" using spn3 by simp
      moreover have "0 \<le> from" "from \<le> from + ?half"
        "from + ?half < int (length (ls_of ?s1 a))"
        using less.prems half by simp_all
      ultimately obtain lns1 where l1:
        "div_axis ?s1 a from (from + ?half) = Some (add_lines ?s1 a lns1)"
        "int (length lns1) = max 0 (from + ?half - from - 1)"
        "\<forall>l \<in> set lns1. \<exists>k. from < k \<and> k < from + ?half \<and> l = line_between ?s1 a k"
        using less.hyps [of "from + ?half" "from" ?s1] by blast
      let ?s2 = "add_lines ?s1 a lns1"
      have "nat (to - (from + ?half)) < nat (to - from)" using spn3 by simp
      moreover have "0 \<le> from + ?half" "from + ?half \<le> to"
        "to < int (length (ls_of ?s2 a))"
        using less.prems half by simp_all
      ultimately obtain lns2 where l2:
        "div_axis ?s2 a (from + ?half) to = Some (add_lines ?s2 a lns2)"
        "int (length lns2) = max 0 (to - (from + ?half) - 1)"
        "\<forall>l \<in> set lns2. \<exists>k. from + ?half < k \<and> k < to \<and> l = line_between ?s2 a k"
        using less.hyps [of to "from + ?half" ?s2] by blast
      have res: "div_axis s a from to = Some (add_lines s a (?l0 # lns1 @ lns2))"
        using False l1(1) l2(1) by (simp add: unfold add_lines_simps)
      have len: "int (length (?l0 # lns1 @ lns2)) = max 0 (to - from - 1)"
        using l1(2) l2(2) spn3 half by simp
      have "\<exists>k. from < k \<and> k < to \<and> l = line_between s a k"
        if mem: "l \<in> set (?l0 # lns1 @ lns2)" for l
      proof -
        consider "l = ?l0" | "l \<in> set lns1" | "l \<in> set lns2" using mem by auto
        then show ?thesis
        proof cases
          case 1
          then show ?thesis using half by (intro exI [of _ "from + ?half"]) simp
        next
          case 2
          then obtain k where "from < k" "k < from + ?half" "l = line_between s a k"
            using l1(3) by auto
          then show ?thesis using half by (intro exI [of _ k]) simp
        next
          case 3
          then obtain k where "from + ?half < k" "k < to" "l = line_between s a k"
            using l2(3) by auto
          then show ?thesis using half by (intro exI [of _ k]) simp
        qed
      qed
      with res len show ?thesis by blast
    qed
  qed
qed

text \<open>
  Between two instances the counters of the line arrays and \<open>n_pts\<close> are zero: so the
  program starts, and so \<open>free_connections\<close> leaves them.
\<close>

definition idle :: "state \<Rightarrow> bool" where
  "idle s = (x_lines s = [] \<and> y_lines s = [] \<and> all_lines s = [] \<and> n_pts s = 0)"

lemma idle_init_state: "idle init_state"
  by (simp add: idle_def init_state_def)

lemma idle_free_connections: "idle (free_connections s)"
  by (simp add: idle_def free_connections_def)

lemma div_axis_no_points: "div_axis s a 0 (- 1) = None"
  by (subst div_axis.simps)
     (simp add: half_of_def signed_divide_int_def signed_modulo_int_def pt_at_def)

lemma prepare_Inr:
  assumes "prepare s1 = Inr s4"
    and "sorted_x_pt s1 = [0..<n_pts s1]" "sorted_y_pt s1 = [0..<n_pts s1]"
  shows "1 \<le> n_pts s1"
    and "\<exists>lx ly. s4 = add_lines (add_lines (init_loops (sort_points s1)) X lx) Y ly \<and>
           int (length lx) = max 0 (int (n_pts s1) - 2) \<and>
           int (length ly) = max 0 (int (n_pts s1) - 2) \<and>
           (\<forall>l \<in> set lx. \<exists>k. 0 < k \<and> k < int (n_pts s1) - 1 \<and>
                l = line_between (init_loops (sort_points s1)) X k) \<and>
           (\<forall>l \<in> set ly. \<exists>k. 0 < k \<and> k < int (n_pts s1) - 1 \<and>
                l = line_between (init_loops (sort_points s1)) Y k)"
    and "rem_cons (init_loops (sort_points s1)) = int (n_pts s1) * (int (n_pts s1) - 1)"
proof -
  let ?s2 = "init_loops (sort_points s1)"
  let ?n = "n_pts s1"
  from assms(1) have i: "initialize_connections (sort_points s1) = Inr ?s2"
    by (auto simp: prepare_def initialize_connections_Inr split: sum.splits)
  then show r: "rem_cons ?s2 = int ?n * (int ?n - 1)"
    using initialize_connections_Inr(2) by fastforce
  from assms(1) i obtain s3 where
    x: "div_axis ?s2 X 0 (int ?n - 1) = Some s3" and y: "div_axis s3 Y 0 (int (n_pts s3) - 1) = Some s4"
    by (auto simp: prepare_def split: sum.splits option.splits Option.bind_splits)
  show n1: "1 \<le> ?n"
  proof (rule ccontr)
    assume "\<not> 1 \<le> ?n"
    then have "?n = 0" by simp
    then show False using x div_axis_no_points [of ?s2 X] by simp
  qed
  have lay: "same_layout (sort_points s1) ?s2" by (rule same_layout_init_loops)
  have len: "int ?n - 1 < int (length (ls_of ?s2 a))" for a
    using lay assms(2,3) by (simp add: same_layout_def ls_of_def)
  obtain lx where lx: "div_axis ?s2 X 0 (int ?n - 1) = Some (add_lines ?s2 X lx)"
      "int (length lx) = max 0 (int ?n - 1 - 0 - 1)"
      "\<forall>l \<in> set lx. \<exists>k. 0 < k \<and> k < int ?n - 1 \<and> l = line_between ?s2 X k"
    using div_axis_Some [of 0 "int ?n - 1" ?s2 X] n1 len by auto
  then have s3: "s3 = add_lines ?s2 X lx" using x by simp
  have len3: "int ?n - 1 < int (length (ls_of s3 Y))" using len s3 by simp
  obtain ly where ly: "div_axis s3 Y 0 (int ?n - 1) = Some (add_lines s3 Y ly)"
      "int (length ly) = max 0 (int ?n - 1 - 0 - 1)"
      "\<forall>l \<in> set ly. \<exists>k. 0 < k \<and> k < int ?n - 1 \<and> l = line_between s3 Y k"
    using div_axis_Some [of 0 "int ?n - 1" s3 Y] n1 len3 by auto
  then have s4: "s4 = add_lines s3 Y ly" using y s3 by simp
  show "\<exists>lx ly. s4 = add_lines (add_lines ?s2 X lx) Y ly \<and>
           int (length lx) = max 0 (int ?n - 2) \<and>
           int (length ly) = max 0 (int ?n - 2) \<and>
           (\<forall>l \<in> set lx. \<exists>k. 0 < k \<and> k < int ?n - 1 \<and> l = line_between ?s2 X k) \<and>
           (\<forall>l \<in> set ly. \<exists>k. 0 < k \<and> k < int ?n - 1 \<and> l = line_between ?s2 Y k)"
    using lx(2,3) ly(2,3) s3 s4 by (intro exI [of _ lx] exI [of _ ly]) simp
qed

lemma prepare_returns:
  assumes "rem_cons s1 = 0" "1 \<le> n_pts s1"
    and "sorted_x_pt s1 = [0..<n_pts s1]" "sorted_y_pt s1 = [0..<n_pts s1]"
  shows "\<exists>s4. prepare s1 = Inr s4"
proof -
  let ?s2 = "init_loops (sort_points s1)"
  let ?n = "n_pts s1"
  have i: "initialize_connections (sort_points s1) = Inr ?s2"
    using assms(1) by (simp add: initialize_connections_returns)
  have lay: "same_layout (sort_points s1) ?s2" by (rule same_layout_init_loops)
  have len: "int ?n - 1 < int (length (ls_of ?s2 a))" for a
    using lay assms(3,4) by (simp add: same_layout_def ls_of_def)
  obtain lx where lx: "div_axis ?s2 X 0 (int ?n - 1) = Some (add_lines ?s2 X lx)"
    using div_axis_Some [of 0 "int ?n - 1" ?s2 X] assms(2) len by auto
  have len3: "int ?n - 1 < int (length (ls_of (add_lines ?s2 X lx) Y))" using len by simp
  obtain ly where ly: "div_axis (add_lines ?s2 X lx) Y 0 (int ?n - 1)
      = Some (add_lines (add_lines ?s2 X lx) Y ly)"
    using div_axis_Some [of 0 "int ?n - 1" "add_lines ?s2 X lx" Y] assms(2) len3 by auto
  show ?thesis
    using i lx ly by (simp add: prepare_def)
qed

definition state_ok :: "state \<Rightarrow> bool" where
  "state_ok s = (wf_state s \<and> graph_ok s)"

lemma same_geometry_refl: "same_geometry s s"
  by (simp add: same_geometry_def)

lemma same_geometry_trans: "same_geometry s t \<Longrightarrow> same_geometry t u \<Longrightarrow> same_geometry s u"
  by (simp add: same_geometry_def)

lemma state_ok_commit: "state_ok s \<Longrightarrow> state_ok (commit s l)"
  by (simp add: state_ok_def wf_state_commit graph_ok_commit)

lemma state_ok_try_line: "state_ok s \<Longrightarrow> state_ok (try_line s l)"
  by (simp add: try_line_def state_ok_commit)

lemma same_geometry_try_line: "same_geometry s (try_line s l)"
  by (simp add: try_line_def same_geometry_commit same_geometry_refl)

lemma state_ok_loop_body: "state_ok s \<Longrightarrow> state_ok (loop_body s clx cly)"
  by (simp add: loop_body_def state_ok_try_line)

lemma same_geometry_loop_body: "same_geometry s (loop_body s clx cly)"
  unfolding loop_body_def Let_def
  using same_geometry_try_line same_geometry_trans by blast

lemma rem_cons_nonneg: "graph_ok s \<Longrightarrow> 0 \<le> rem_cons s"
  by (simp add: graph_ok_def)

lemma rem_cons_even: "graph_ok s \<Longrightarrow> even (rem_cons s)"
  by (simp add: graph_ok_def)

text \<open>
  The states the loop of \<open>main\<close> passes through when it starts in \<open>s0\<close> with both
  cursors at 0, each with its cursors.
\<close>

inductive loop_reach :: "state \<Rightarrow> state \<Rightarrow> nat \<Rightarrow> nat \<Rightarrow> bool" for s0 :: state where
  start: "loop_reach s0 s0 0 0"
| round: "loop_reach s0 s clx cly \<Longrightarrow> loop_cond s clx cly \<Longrightarrow>
          loop_reach s0 (loop_body s clx cly) (clx + 1) (cly + 1)"

lemma loop_reach_inv:
  assumes "loop_reach s0 s clx cly" "state_ok s0"
  shows "state_ok s \<and> same_geometry s0 s \<and> clx = cly \<and>
         length (x_lines s) = length (x_lines s0) \<and>
         length (y_lines s) = length (y_lines s0) \<and>
         clx \<le> length (x_lines s0) \<and> cly \<le> length (y_lines s0)"
  using assms
proof (induction rule: loop_reach.induct)
  case start
  then show ?case by (simp add: same_geometry_refl)
next
  case (round s clx cly)
  then show ?case
    using same_geometry_loop_body [of s clx cly]
    by (auto simp: state_ok_loop_body loop_cond_def intro: same_geometry_trans)
qed

lemma greedy_loop_reach:
  assumes "loop_reach s0 s clx cly" "greedy_loop s clx cly = (s', cx, cy)"
  shows "loop_reach s0 s' cx cy \<and> \<not> loop_cond s' cx cy"
  using assms
proof (induction s clx cly rule: greedy_loop.induct)
  case (1 s clx cly)
  show ?case
  proof (cases "loop_cond s clx cly")
    case True
    then have "greedy_loop (loop_body s clx cly) (clx + 1) (cly + 1) = (s', cx, cy)"
      using "1.prems"(2) by (simp add: greedy_loop.simps [of s])
    moreover have "loop_reach s0 (loop_body s clx cly) (clx + 1) (cly + 1)"
      using "1.prems"(1) True by (rule loop_reach.round)
    ultimately show ?thesis using "1.IH" True by blast
  next
    case False
    then have "(s', cx, cy) = (s, clx, cly)"
      using "1.prems"(2) by (simp add: greedy_loop.simps [of s])
    then show ?thesis using False "1.prems"(1) by simp
  qed
qed

lemma greedy_loop_final:
  assumes "greedy_loop s0 0 0 = (s', cx, cy)" "state_ok s0"
    "length (x_lines s0) = length (y_lines s0)"
  shows "state_ok s'" "same_geometry s0 s'"
    "length (x_lines s') = length (x_lines s0)" "length (y_lines s') = length (y_lines s0)"
    "rem_cons s' = 0 \<or> (cx = length (x_lines s') \<and> cy = length (y_lines s'))"
    "cx \<le> length (x_lines s0)" "cy \<le> length (y_lines s0)"
proof -
  have r: "loop_reach s0 s' cx cy" and c: "\<not> loop_cond s' cx cy"
    using greedy_loop_reach [OF loop_reach.start assms(1)] by simp_all
  note i = loop_reach_inv [OF r assms(2)]
  show "state_ok s'" "same_geometry s0 s'"
    "length (x_lines s') = length (x_lines s0)" "length (y_lines s') = length (y_lines s0)"
    "cx \<le> length (x_lines s0)" "cy \<le> length (y_lines s0)"
    using i by simp_all
  show "rem_cons s' = 0 \<or> (cx = length (x_lines s') \<and> cy = length (y_lines s'))"
    using i c assms(3) by (auto simp: loop_cond_def)
qed

text \<open>The state \<open>prepare\<close> hands to the loop.\<close>

lemma prepare_inv:
  assumes "read_instance_file s0 file = Inr s1" "prepare s1 = Inr s4"
  shows "state_ok s4" "n_pts s4 = n_pts s1" "1 \<le> n_pts s1"
    "rem_cons s4 = int (n_pts s1) * (int (n_pts s1) - 1)"
    "int (length (x_lines s4)) = int (length (x_lines s0)) + max 0 (int (n_pts s1) - 2)"
    "int (length (y_lines s4)) = int (length (y_lines s0)) + max 0 (int (n_pts s1) - 2)"
    "all_lines s4 = all_lines s0"
proof -
  note rd = read_instance_file_Inr [OF assms(1)]
  let ?s2 = "init_loops (sort_points s1)"
  note p = prepare_Inr [OF assms(2) rd(1) rd(2)]
  from p(2) obtain lx ly where s4: "s4 = add_lines (add_lines ?s2 X lx) Y ly"
    and lx: "int (length lx) = max 0 (int (n_pts s1) - 2)"
    and ly: "int (length ly) = max 0 (int (n_pts s1) - 2)"
    by blast
  have lay: "same_layout (sort_points s1) ?s2" by (rule same_layout_init_loops)
  have wf2: "wf_state ?s2"
    by (rule wf_state_init_loops) (simp_all add: rd(1) rd(2))
  have g2: "graph_ok ?s2"
    by (rule graph_ok_init_loops) (simp add: p(3))
  have "wf_state s4"
    using wf2 by (simp add: s4 wf_state_def)
  moreover have "graph_ok s4"
    using g2 graph_ok_cong [of s4 ?s2] by (simp add: s4)
  ultimately show "state_ok s4" by (simp add: state_ok_def)
  show "n_pts s4 = n_pts s1" by (simp add: s4)
  show "1 \<le> n_pts s1" by (rule p(1))
  show "rem_cons s4 = int (n_pts s1) * (int (n_pts s1) - 1)"
    using p(3) by (simp add: s4)
  show "int (length (x_lines s4)) = int (length (x_lines s0)) + max 0 (int (n_pts s1) - 2)"
    using lay lx rd(3) by (simp add: s4 add_lines_def same_layout_def)
  show "int (length (y_lines s4)) = int (length (y_lines s0)) + max 0 (int (n_pts s1) - 2)"
    using lay ly rd(4) by (simp add: s4 add_lines_def same_layout_def)
  show "all_lines s4 = all_lines s0"
    using lay rd(5) by (simp add: s4 same_layout_def)
qed

text \<open>The number of rounds the loop makes from a state and a pair of cursors.\<close>

function loop_rounds :: "state \<Rightarrow> nat \<Rightarrow> nat \<Rightarrow> nat" where
  "loop_rounds s clx cly =
     (if loop_cond s clx cly then 1 + loop_rounds (loop_body s clx cly) (clx + 1) (cly + 1)
      else 0)"
  by pat_completeness auto
termination
  by (relation "measure (\<lambda>(s, clx, cly). length (x_lines s) - clx)")
     (auto simp: loop_cond_def)

declare loop_rounds.simps [simp del]

lemma greedy_loop_rounds:
  "greedy_loop s clx cly = (s', cx, cy) \<Longrightarrow>
   cx = clx + loop_rounds s clx cly \<and> cy = cly + loop_rounds s clx cly"
proof (induction s clx cly rule: greedy_loop.induct)
  case (1 s clx cly)
  show ?case
  proof (cases "loop_cond s clx cly")
    case True
    then have "greedy_loop (loop_body s clx cly) (clx + 1) (cly + 1) = (s', cx, cy)"
      using "1.prems" by (simp add: greedy_loop.simps [of s])
    then show ?thesis
      using "1.IH" True by (simp add: loop_rounds.simps [of s])
  next
    case False
    then show ?thesis
      using "1.prems" greedy_loop.simps [of s clx cly] loop_rounds.simps [of s clx cly]
      by auto
  qed
qed

text \<open>
  The states the connectivity graph passes through: \<open>initialize_connections\<close> returns
  on a loaded and sorted instance; from then on lines are generated, lines are committed
  and pairs of points are disconnected, in any order and any number of times.
\<close>

inductive reachable :: "state \<Rightarrow> bool" where
  connected: "read_instance_file s0 f = Inr s1 \<Longrightarrow>
              initialize_connections (sort_points s1) = Inr s \<Longrightarrow> reachable s"
| lines: "reachable s \<Longrightarrow> div_axis s a 0 (int (n_pts s) - 1) = Some s' \<Longrightarrow> reachable s'"
| committed: "reachable s \<Longrightarrow> valid_ref s l \<Longrightarrow> reachable (commit s l)"
| disconnected: "reachable s \<Longrightarrow> pt1 < n_pts s \<Longrightarrow> pt2 < n_pts s \<Longrightarrow>
                 reachable (disconnect_points s pt1 pt2)"

lemma state_ok_add_lines: "state_ok s \<Longrightarrow> state_ok (add_lines s a lns)"
  using graph_ok_cong [of "add_lines s a lns" s]
  by (simp add: state_ok_def wf_state_def)

lemma reachable_state_ok: "reachable s \<Longrightarrow> state_ok s"
proof (induction rule: reachable.induct)
  case (connected s0 f s1 s)
  note rd = read_instance_file_Inr [OF connected(1)]
  note i = initialize_connections_Inr [OF connected(2)]
  have "wf_state (init_loops (sort_points s1))"
    by (rule wf_state_init_loops) (simp_all add: rd(1) rd(2))
  moreover have "graph_ok (init_loops (sort_points s1))"
    by (rule graph_ok_init_loops) (use i in simp)
  ultimately show ?case by (simp add: state_ok_def i(1))
next
  case (lines s a s')
  have n1: "1 \<le> n_pts s"
  proof (rule ccontr)
    assume "\<not> 1 \<le> n_pts s"
    then have "n_pts s = 0" by simp
    then show False using lines(2) div_axis_no_points [of s a] by simp
  qed
  have "int (n_pts s) - 1 < int (length (ls_of s a))"
    using lines(3) by (simp add: state_ok_def wf_state_def ls_of_def)
  then obtain lns where "div_axis s a 0 (int (n_pts s) - 1) = Some (add_lines s a lns)"
    using div_axis_Some [of 0 "int (n_pts s) - 1" s a] n1 by auto
  then show ?case using lines(2,3) by (simp add: state_ok_add_lines)
next
  case (committed s l)
  then show ?case by (simp add: state_ok_commit)
next
  case (disconnected s pt1 pt2)
  then show ?case
    using same_frame_disconnect_points [of s pt1 pt2]
    by (auto simp: state_ok_def graph_ok_disconnect_points intro: wf_state_same_frame)
qed

text \<open>
  The unordered pairs of the points \<open>0..n-1\<close>, each once, and the number of them that
  are no longer connected.
\<close>

definition unordered_pairs :: "nat \<Rightarrow> (nat \<times> nat) list" where
  "unordered_pairs n = concat (map (\<lambda>j. map (\<lambda>i. (i, j)) [0..<j]) [0..<n])"

definition disconnected_pairs :: "state \<Rightarrow> nat" where
  "disconnected_pairs s =
     length (filter (\<lambda>(i, j). \<not> con s i j) (unordered_pairs (n_pts s)))"

lemma set_unordered_pairs: "set (unordered_pairs n) = pairs_below n"
  by (auto simp: unordered_pairs_def pairs_below_def)

lemma unordered_pairs_Suc:
  "unordered_pairs (Suc n) = unordered_pairs n @ map (\<lambda>i. (i, n)) [0..<n]"
  by (simp add: unordered_pairs_def)

lemma distinct_unordered_pairs: "distinct (unordered_pairs n)"
proof (induction n)
  case 0
  show ?case by (simp add: unordered_pairs_def)
next
  case (Suc n)
  have "distinct (map (\<lambda>i. (i, n)) [0..<n])"
    by (simp add: distinct_map inj_on_def)
  moreover have "set (unordered_pairs n) \<inter> set (map (\<lambda>i. (i, n)) [0..<n]) = {}"
    by (auto simp: set_unordered_pairs pairs_below_def)
  ultimately show ?case
    using Suc.IH by (simp add: unordered_pairs_Suc)
qed

lemma rem_cons_disconnected_pairs:
  assumes "graph_ok s"
  shows "rem_cons s = int (n_pts s) * (int (n_pts s) - 1) - 2 * int (disconnected_pairs s)"
proof -
  let ?n = "n_pts s"
  have d: "disconnected_pairs s = card (pairs_below ?n - connected_pairs s)"
  proof -
    have "disconnected_pairs s = card {x \<in> set (unordered_pairs ?n). \<not> (case x of (i, j) \<Rightarrow> con s i j)}"
      unfolding disconnected_pairs_def
      using distinct_length_filter [OF distinct_unordered_pairs, of "\<lambda>(i, j). \<not> con s i j" ?n]
      by (simp add: Int_def conj_commute case_prod_beta)
    also have "{x \<in> set (unordered_pairs ?n). \<not> (case x of (i, j) \<Rightarrow> con s i j)}
        = pairs_below ?n - connected_pairs s"
      by (auto simp: set_unordered_pairs pairs_below_def connected_pairs_def)
    finally show ?thesis .
  qed
  have sub: "connected_pairs s \<subseteq> pairs_below ?n"
    by (auto simp: pairs_below_def connected_pairs_def)
  have "card (pairs_below ?n - connected_pairs s)
      = card (pairs_below ?n) - card (connected_pairs s)"
    by (rule card_Diff_subset [OF finite_connected_pairs sub])
  moreover have "card (connected_pairs s) \<le> card (pairs_below ?n)"
    by (rule card_mono [OF finite_pairs_below sub])
  ultimately have "2 * int (card (connected_pairs s))
      = int (2 * card (pairs_below ?n)) - 2 * int (disconnected_pairs s)"
    by (simp add: d)
  also have "int (2 * card (pairs_below ?n)) = int ?n * (int ?n - 1)"
    unfolding card_pairs_below by (cases ?n) (simp_all add: algebra_simps)
  finally show ?thesis using assms by (simp add: graph_ok_def)
qed

lemma prepare_reachable:
  assumes "read_instance_file s0 f = Inr s1" "prepare s1 = Inr s4"
  shows "reachable s4"
proof -
  from assms(2) obtain s2 where i: "initialize_connections (sort_points s1) = Inr s2"
    by (auto simp: prepare_def split: sum.splits)
  with assms(2) obtain s3 where
    x: "div_axis s2 X 0 (int (n_pts s2) - 1) = Some s3" and
    y: "div_axis s3 Y 0 (int (n_pts s3) - 1) = Some s4"
    by (auto simp: prepare_def split: sum.splits option.splits Option.bind_splits)
  have "reachable s2" using assms(1) i by (rule reachable.connected)
  then have "reachable s3" using x by (rule reachable.lines)
  then show ?thesis using y by (rule reachable.lines)
qed

lemma reachable_try_line: "reachable s \<Longrightarrow> valid_ref s l \<Longrightarrow> reachable (try_line s l)"
  by (simp add: try_line_def reachable.committed)

lemma reachable_loop_body:
  assumes "reachable s" "loop_cond s clx cly"
  shows "reachable (loop_body s clx cly)"
proof -
  have "reachable (try_line s (XLine clx))"
    using assms by (intro reachable_try_line) (simp_all add: valid_ref_def loop_cond_def)
  moreover have "valid_ref (try_line s (XLine clx)) (YLine cly)"
    using assms(2) by (simp add: valid_ref_def loop_cond_def)
  ultimately show ?thesis
    by (simp add: loop_body_def reachable_try_line)
qed

lemma loop_reach_reachable: "loop_reach s0 s clx cly \<Longrightarrow> reachable s0 \<Longrightarrow> reachable s"
  by (induction rule: loop_reach.induct) (simp_all add: reachable_loop_body)

lemma solve_reachable:
  assumes "read_instance_file s0 f = Inr s1" "solve s1 = Inr (s', cx, cy)"
  shows "reachable s'"
proof -
  from assms(2) obtain s4 where p: "prepare s1 = Inr s4" and g: "greedy_loop s4 0 0 = (s', cx, cy)"
    by (auto simp: solve_def split: sum.splits)
  have "loop_reach s4 s' cx cy"
    using greedy_loop_reach [OF loop_reach.start g] by simp
  then show ?thesis
    using prepare_reachable [OF assms(1) p] by (rule loop_reach_reachable)
qed

lemma disconnect_row_keeps:
  assumes "same_frame s0 s \<and> con s a b"
    and "\<forall>j \<in> set js.
           \<not> (a = pt_self_ix (points s0 (ls ! i)) \<and> b = pt_self_ix (points s0 (ls ! j))) \<and>
           \<not> (a = pt_self_ix (points s0 (ls ! j)) \<and> b = pt_self_ix (points s0 (ls ! i)))"
  shows "same_frame s0 (disconnect_row ls i js s) \<and> con (disconnect_row ls i js s) a b"
  unfolding disconnect_row_def
proof (rule fold_invariant [where P = "\<lambda>t. same_frame s0 t \<and> con t a b"])
  show "same_frame s0 s \<and> con s a b" by (rule assms(1))
next
  fix j t
  assume j: "j \<in> set js" and t: "same_frame s0 t \<and> con t a b"
  have self: "\<And>k. pt_self_ix (points t k) = pt_self_ix (points s0 k)"
    using t by (simp add: same_frame_def)
  show "same_frame s0 (disconnect_points t (pt_self_ix (points t (ls ! i)))
            (pt_self_ix (points t (ls ! j)))) \<and>
        con (disconnect_points t (pt_self_ix (points t (ls ! i)))
            (pt_self_ix (points t (ls ! j)))) a b"
    using t j assms(2) same_frame_disconnect_points same_frame_trans
    by (auto simp: self con_disconnect_points)
qed

lemma disconnect_across_keeps:
  assumes "same_frame s0 s \<and> con s a b"
    and "\<forall>i \<in> set ixs. \<forall>j \<in> set js.
           \<not> (a = pt_self_ix (points s0 (ls ! i)) \<and> b = pt_self_ix (points s0 (ls ! j))) \<and>
           \<not> (a = pt_self_ix (points s0 (ls ! j)) \<and> b = pt_self_ix (points s0 (ls ! i)))"
  shows "same_frame s0 (disconnect_across ls ixs js s) \<and>
         con (disconnect_across ls ixs js s) a b"
  unfolding disconnect_across_def
proof (rule fold_invariant [where P = "\<lambda>t. same_frame s0 t \<and> con t a b"])
  show "same_frame s0 s \<and> con s a b" by (rule assms(1))
next
  fix i t
  assume "i \<in> set ixs" and "same_frame s0 t \<and> con t a b"
  then show "same_frame s0 (disconnect_row ls i js t) \<and> con (disconnect_row ls i js t) a b"
    using assms(2) by (intro disconnect_row_keeps) simp_all
qed

lemma con_pre_commit [simp]: "con (pre_commit s l) a b = con s a b"
  by (simp add: con_def)

lemma con_commit_mono: "con (commit s l) a b \<Longrightarrow> con s a b"
  unfolding commit_eq using con_mono_disconnect_across by fastforce

lemma deref_set_committed_other:
  "ln_axis (deref (set_committed s l v) r) = ln_axis (deref s r)"
  "ln_inter (deref (set_committed s l v) r) = ln_inter (deref s r)"
proof -
  have *: "ln_axis ((xs[k := (xs ! k)\<lparr>ln_committed := v\<rparr>]) ! m) = ln_axis (xs ! m) \<and>
           ln_inter ((xs[k := (xs ! k)\<lparr>ln_committed := v\<rparr>]) ! m) = ln_inter (xs ! m)"
    for xs :: "line list" and k m
    by (cases "k < length xs"; cases "m = k")
       (simp_all add: list_update_beyond not_less)
  show "ln_axis (deref (set_committed s l v) r) = ln_axis (deref s r)"
    and "ln_inter (deref (set_committed s l v) r) = ln_inter (deref s r)"
    using * by (cases l; cases r; simp add: deref_def set_committed_def)+
qed

lemma deref_commit_other:
  "ln_axis (deref (commit s l) r) = ln_axis (deref s r)"
  "ln_inter (deref (commit s l) r) = ln_inter (deref s r)"
proof -
  have "x_lines (commit s l) = x_lines (set_committed s l 1)"
    and "y_lines (commit s l) = y_lines (set_committed s l 1)"
    using same_frame_commit [of s l] by (simp_all add: same_frame_def pre_commit_def)
  then have "deref (commit s l) r = deref (set_committed s l 1) r"
    by (cases r) (simp_all add: deref_def)
  then show "ln_axis (deref (commit s l) r) = ln_axis (deref s r)"
    and "ln_inter (deref (commit s l) r) = ln_inter (deref s r)"
    by (simp_all add: deref_set_committed_other)
qed

lemma all_lines_commit: "all_lines (commit s l) = all_lines s @ [l]"
  using same_frame_commit [of s l] by (simp add: same_frame_def)


text \<open>The lines of an axis, and the coordinate at a sorted position of an axis.\<close>

definition lines_of :: "state \<Rightarrow> axis \<Rightarrow> line list" where
  "lines_of s a = (if a = X then x_lines s else y_lines s)"

definition int_coord :: "point \<Rightarrow> axis \<Rightarrow> int" where
  "int_coord p a = (if a = X then pt_x p else pt_y p)"

definition sorted_coord :: "state \<Rightarrow> axis \<Rightarrow> nat \<Rightarrow> rat" where
  "sorted_coord s a k = of_int (int_coord (points s (ls_of s a ! k)) a)"

text \<open>The same coordinate as the float \<open>get_point_nearest_inter\<close> compares.\<close>

definition float_coord :: "state \<Rightarrow> axis \<Rightarrow> nat \<Rightarrow> rat" where
  "float_coord s a k = coord_of (points s (ls_of s a ! k)) a"

text \<open>
  The coordinates of an axis are small when each is at most \<open>2^24\<close> in magnitude;
  the conversion to \<open>float\<close> is exact then.
\<close>

definition small_coords :: "state \<Rightarrow> axis \<Rightarrow> bool" where
  "small_coords s a =
     list_all (\<lambda>k. \<bar>int_coord (points s (ls_of s a ! k)) a\<bar> \<le> 2 ^ 24) [0..<n_pts s]"

text \<open>
  Rounding leaves a number \<open>m * 2^j\<close> with \<open>\<bar>m\<bar> \<le> 2^24\<close> as it is: a float has 24
  significant bits.
\<close>

lemma rne_of_int [simp]: "rne (of_int z) = z"
  by (simp add: rne_def)


lemma float_exp_bound:
  assumes "r \<noteq> 0"
  shows "float_exp r = - 126 \<or> 2 powi (float_exp r) \<le> \<bar>r\<bar>"
proof -
  obtain p q where pq: "quotient_of \<bar>r\<bar> = (p, q)" by (cases "quotient_of \<bar>r\<bar>")
  have q: "0 < q" using quotient_of_denom_pos [OF pq] .
  have r: "\<bar>r\<bar> = of_int p / of_int q" using quotient_of_div [OF pq] .
  have "0 < \<bar>r\<bar>" using assms by simp
  then have p: "0 < p" using q unfolding r by (simp add: zero_less_divide_iff)
  define e where "e = bitlen p - bitlen q"
  have lo: "2 powi (e - 1) \<le> \<bar>r\<bar>"
  proof -
    have bp: "1 \<le> bitlen p" "1 \<le> bitlen q"
      using p q by (simp_all add: bitlen_ge_iff_power)
    have 1: "(2::rat) ^ nat (bitlen p - 1) \<le> of_int p"
      using bitlen_bounds [OF p] by (metis of_int_le_iff of_int_numeral of_int_power)
    have 2: "of_int q \<le> (2::rat) ^ nat (bitlen q)"
      using bitlen_bounds [OF q] by (metis less_imp_le of_int_le_iff of_int_numeral of_int_power)
    have "e - 1 = (bitlen p - 1) - bitlen q" by (simp add: e_def)
    then have "(2::rat) powi (e - 1) = 2 powi (bitlen p - 1) / 2 powi (bitlen q)"
      by (simp add: power_int_diff)
    also have "\<dots> = 2 ^ nat (bitlen p - 1) / 2 ^ nat (bitlen q)"
      using bp by (simp add: power_int_def)
    also have "\<dots> \<le> of_int p / of_int q"
      using 1 2 q p by (intro frac_le) simp_all
    finally show ?thesis by (simp add: r)
  qed
  have "float_exp r = max (- 126) (if 2 powi e \<le> \<bar>r\<bar> then e else e - 1)"
    by (simp add: float_exp_def pq e_def Let_def)
  then show ?thesis using lo by (auto simp: max_def)
qed

lemma float_exp_lower: "- 126 \<le> float_exp r"
  by (simp add: float_exp_def Let_def split: prod.splits)

lemma to_float_exact:
  assumes m: "\<bar>m\<bar> \<le> 2 ^ 24" and j: "- 149 \<le> j"
  shows "to_float (of_int m * 2 powi j) = of_int m * 2 powi j"
proof (cases "m = 0")
  case True
  then show ?thesis by (simp add: to_float_def rne_def)
next
  case False
  define r :: rat where "r = of_int m * 2 powi j"
  define E where "E = float_exp r"
  have r0: "r \<noteq> 0" using False by (simp add: r_def)
  have absr: "\<bar>r\<bar> = of_int \<bar>m\<bar> * 2 powi j"
    by (simp add: r_def abs_mult)
  have "\<exists>z. r / 2 powi (E - 23) = of_int z"
  proof (cases "E - 23 \<le> j")
    case True
    define k where "k = nat (j - (E - 23))"
    have "j = (E - 23) + int k" using True by (simp add: k_def)
    then have "(2::rat) powi j = 2 powi (E - 23) * 2 powi (int k)"
      by (simp add: power_int_add)
    then have "(2::rat) powi j = 2 powi (E - 23) * 2 ^ k"
      by simp
    then have "r / 2 powi (E - 23) = of_int (m * 2 ^ k)"
      by (simp add: r_def)
    then show ?thesis by blast
  next
    case False
    with j have "E \<noteq> - 126" by simp
    with float_exp_bound [OF r0] have le: "2 powi E \<le> \<bar>r\<bar>" by (simp add: E_def)
    have m': "(of_int \<bar>m\<bar> :: rat) \<le> 2 ^ 24"
      using m of_int_le_iff [of "\<bar>m\<bar>" "2 ^ 24", where 'a = rat] by simp
    have pos: "(0::rat) < 2 powi j" by (simp add: zero_less_power_int)
    have "of_int \<bar>m\<bar> * 2 powi j \<le> (2::rat) ^ 24 * 2 powi j"
      using m' pos by (intro mult_right_mono) simp_all
    also have "\<dots> = 2 powi (24 + j)"
      by (simp add: power_int_add)
    finally have pw: "(2::rat) powi E \<le> 2 powi (24 + j)" using le absr by simp
    have "E \<le> 24 + j"
    proof (rule ccontr)
      assume "\<not> E \<le> 24 + j"
      then have "24 + j < E" by simp
      then have "(2::rat) powi (24 + j) < 2 powi E"
        by (rule power_int_strict_increasing) simp
      with pw show False by simp
    qed
    with False have E: "E = 24 + j" by simp
    have "(2::rat) ^ 24 * 2 powi j \<le> of_int \<bar>m\<bar> * 2 powi j"
      using le absr by (simp add: E power_int_add)
    then have "(2::rat) ^ 24 \<le> of_int \<bar>m\<bar>"
      using pos by (simp only: mult_le_cancel_right_pos)
    then have "2 ^ 24 \<le> \<bar>m\<bar>"
      using of_int_le_iff [of "2 ^ 24" "\<bar>m\<bar>", where 'a = rat] by simp
    with m have am: "\<bar>m\<bar> = 2 ^ 24" by simp
    have "(2::rat) powi (E - 23) = 2 * 2 powi j"
      by (simp add: E power_int_add)
    then have "r / 2 powi (E - 23) = of_int m / 2"
      by (simp add: r_def)
    moreover have "even m"
    proof -
      have "even \<bar>m\<bar>" unfolding am by simp
      then show ?thesis by simp
    qed
    then have "(of_int m :: rat) / 2 = of_int (m div 2)"
      by (simp add: of_int_div)
    ultimately show ?thesis by metis
  qed
  then obtain z where z: "r / 2 powi (E - 23) = of_int z" ..
  have "to_float r = of_int z * 2 powi (E - 23)"
    by (simp add: to_float_def E_def [symmetric] z)
  also have "\<dots> = r" using z by (simp add: field_simps)
  finally show ?thesis by (simp add: r_def)
qed


lemma to_float_of_int: "\<bar>m\<bar> \<le> 2 ^ 24 \<Longrightarrow> to_float (of_int m) = of_int m"
  using to_float_exact [of m 0] by simp

lemma to_float_half: "\<bar>m\<bar> \<le> 2 ^ 24 \<Longrightarrow> to_float (of_int m / 2) = of_int m / 2"
  using to_float_exact [of m "- 1"] by (simp add: power_int_minus field_simps)

text \<open>For evaluation: a number that needs no rounding needs no exponent either.\<close>

lemma to_float_code [code]:
  "to_float r =
     (let (p, q) = quotient_of r
      in if (q = 1 \<or> q = 2) \<and> \<bar>p\<bar> \<le> 16777216 then r
         else let u = 2 powi (float_exp r - 23) in of_int (rne (r / u)) * u)"
proof -
  obtain p q where pq: "quotient_of r = (p, q)" by (cases "quotient_of r")
  have r: "r = of_int p / of_int q" using quotient_of_div [OF pq] .
  show ?thesis
  proof (cases "(q = 1 \<or> q = 2) \<and> \<bar>p\<bar> \<le> 16777216")
    case True
    then have "to_float r = r"
      using to_float_of_int [of p] to_float_half [of p] by (auto simp: r)
    with True show ?thesis by (simp add: pq)
  next
    case False
    then have "(if (q = 1 \<or> q = 2) \<and> \<bar>p\<bar> \<le> 16777216 then r
        else let u = 2 powi (float_exp r - 23) in of_int (rne (r / u)) * u) = to_float r"
      by (simp only: if_False to_float_def)
    then show ?thesis by (simp add: pq)
  qed
qed

lemma coord_of_exact:
  "\<bar>int_coord p a\<bar> \<le> 2 ^ 24 \<Longrightarrow> coord_of p a = of_int (int_coord p a)"
  by (auto simp: coord_of_def int_coord_def to_float_of_int)

lemma float_coord_exact:
  "small_coords s a \<Longrightarrow> k < n_pts s \<Longrightarrow> float_coord s a k = sorted_coord s a k"
  by (simp add: small_coords_def list_all_iff float_coord_def sorted_coord_def coord_of_exact)



lemma sorted_coords_sort_points:
  "sorted (map (\<lambda>k. int_coord (points s k) a) (ls_of (sort_points s) a))"
proof (cases a)
  case X
  have "sorted (map (\<lambda>k. pt_x (points s k)) (sort_key (\<lambda>k. pt_x (points s k)) (sorted_x_pt s)))"
    by (rule sorted_sort_key)
  then show ?thesis using X by (simp add: ls_of_def sort_points_def int_coord_def)
next
  case Y
  have "sorted (map (\<lambda>k. pt_y (points s k)) (sort_key (\<lambda>k. pt_y (points s k)) (sorted_y_pt s)))"
    by (rule sorted_sort_key)
  then show ?thesis using Y by (simp add: ls_of_def sort_points_def int_coord_def)
qed

text \<open>
  After \<open>prepare\<close> the sorted array of each axis is a list of all the points, in the
  order of their coordinates on that axis.
\<close>

lemma prepare_sorted:
  assumes "read_instance_file s0 f = Inr s1" "prepare s1 = Inr s4"
  shows "length (ls_of s4 a) = n_pts s4"
    and "set (ls_of s4 a) = {..<n_pts s4}"
    and "i \<le> j \<Longrightarrow> j < n_pts s4 \<Longrightarrow> sorted_coord s4 a i \<le> sorted_coord s4 a j"
    and "int_coord (points s4 q) a = int_coord (points s1 q) a"
    and "n_pts s4 = n_pts s1"
proof -
  note rd = read_instance_file_Inr [OF assms(1)]
  let ?s2 = "init_loops (sort_points s1)"
  from prepare_Inr(2) [OF assms(2) rd(1) rd(2)]
  obtain lx ly where s4: "s4 = add_lines (add_lines ?s2 X lx) Y ly" by blast
  have lay: "same_layout (sort_points s1) ?s2" by (rule same_layout_init_loops)
  have ls: "ls_of s4 a = ls_of (sort_points s1) a"
    using lay by (simp add: s4 ls_of_def same_layout_def)
  have co: "int_coord (points s4 k) a = int_coord (points s1 k) a" for k
    using lay by (simp add: s4 int_coord_def same_layout_def)
  have n: "n_pts s4 = n_pts s1" by (simp add: s4)
  have "length (ls_of (sort_points s1) a) = n_pts s1"
    by (cases a) (simp_all add: ls_of_def rd(1) rd(2))
  then show len: "length (ls_of s4 a) = n_pts s4"
    by (simp only: ls n)
  have "set (ls_of (sort_points s1) a) = {..<n_pts s1}"
    by (cases a) (auto simp: ls_of_def rd(1) rd(2))
  then show "set (ls_of s4 a) = {..<n_pts s4}"
    by (simp only: ls n)
  show "sorted_coord s4 a i \<le> sorted_coord s4 a j" if "i \<le> j" "j < n_pts s4"
  proof -
    have "sorted (map (\<lambda>k. int_coord (points s1 k) a) (ls_of s4 a))"
      using sorted_coords_sort_points [of s1 a] by (simp add: ls)
    then have "map (\<lambda>k. int_coord (points s1 k) a) (ls_of s4 a) ! i
        \<le> map (\<lambda>k. int_coord (points s1 k) a) (ls_of s4 a) ! j"
      using that len by (intro sorted_nth_mono) simp_all
    then show ?thesis using that len by (simp add: sorted_coord_def co)
  qed
  show "int_coord (points s4 q) a = int_coord (points s1 q) a" by (rule co)
  show "n_pts s4 = n_pts s1" by (rule n)
qed

lemma prepare_lines:
  assumes "idle s0" "read_instance_file s0 f = Inr s1" "prepare s1 = Inr s4"
    "l \<in> set (lines_of s4 a)"
  shows "\<exists>k. 0 < k \<and> k + 1 < n_pts s4 \<and> l = line_between s4 a (int k)"
proof -
  note rd = read_instance_file_Inr [OF assms(2)]
  let ?s2 = "init_loops (sort_points s1)"
  from prepare_Inr(2) [OF assms(3) rd(1) rd(2)]
  obtain lx ly where s4: "s4 = add_lines (add_lines ?s2 X lx) Y ly"
    and lx: "\<forall>l \<in> set lx. \<exists>k. 0 < k \<and> k < int (n_pts s1) - 1 \<and> l = line_between ?s2 X k"
    and ly: "\<forall>l \<in> set ly. \<exists>k. 0 < k \<and> k < int (n_pts s1) - 1 \<and> l = line_between ?s2 Y k"
    by blast
  have lay: "same_layout (sort_points s1) ?s2" by (rule same_layout_init_loops)
  have empty: "x_lines ?s2 = []" "y_lines ?s2 = []"
    using lay rd(3,4) assms(1) by (simp_all add: same_layout_def idle_def)
  have lines: "lines_of s4 a = (if a = X then lx else ly)"
    using empty by (simp add: s4 lines_of_def add_lines_def)
  have lb: "line_between s4 a k = line_between ?s2 a k" for k
    by (simp add: s4)
  have n: "n_pts s4 = n_pts s1" by (simp add: s4)
  from assms(4) lines lx ly obtain k where
    k: "0 < k" "k < int (n_pts s1) - 1" "l = line_between ?s2 a k"
    by (cases a) auto
  show ?thesis
    using k by (intro exI [of _ "nat k"]) (simp add: lb n)
qed

text \<open>
  The specification's \<open>nearest_index_left_of\<close>, in its words: the position, in the
  sorted array of the axis, of the last point whose coordinate is at most the given one,
  and none (\<open>-1\<close>) when there is no such point.
\<close>

definition spec_nearest_index_left_of :: "state \<Rightarrow> axis \<Rightarrow> rat \<Rightarrow> int" where
  "spec_nearest_index_left_of s a x =
     (case filter (\<lambda>i. sorted_coord s a i \<le> x) (rev [0..<n_pts s]) of
        [] \<Rightarrow> - 1
      | i # _ \<Rightarrow> int i)"

lemma nearest_from_first:
  "i \<le> m \<Longrightarrow> m < n_pts s \<Longrightarrow> x < float_coord s a m \<Longrightarrow>
   (\<forall>k. i \<le> k \<and> k < m \<longrightarrow> float_coord s a k \<le> x) \<Longrightarrow>
   nearest_from s a x i = int m - 1"
proof (induction s a x i rule: nearest_from.induct)
  case (1 s a x i)
  show ?case
  proof (cases "i = m")
    case True
    then show ?thesis
      using "1.prems" by (subst nearest_from.simps) (simp add: float_coord_def)
  next
    case False
    then have lt: "i < m" using "1.prems"(1) by simp
    then have "\<not> x < float_coord s a i" using "1.prems"(4) by (simp add: not_less)
    then have "nearest_from s a x i = nearest_from s a x (i + 1)"
      using lt "1.prems"(2) by (subst nearest_from.simps) (simp add: float_coord_def)
    moreover have "nearest_from s a x (i + 1) = int m - 1"
      using "1.prems" lt \<open>\<not> x < float_coord s a i\<close>
      by (intro "1.IH") (simp_all add: float_coord_def)
    ultimately show ?thesis by simp
  qed
qed

lemma nearest_from_none:
  "(\<forall>k. i \<le> k \<and> k < n_pts s \<longrightarrow> float_coord s a k \<le> x) \<Longrightarrow> nearest_from s a x i = - 1"
proof (induction s a x i rule: nearest_from.induct)
  case (1 s a x i)
  show ?case
  proof (cases "i < n_pts s")
    case True
    then have "\<not> x < float_coord s a i" using "1.prems" by (simp add: not_less)
    then have "nearest_from s a x i = nearest_from s a x (i + 1)"
      using True by (subst nearest_from.simps) (simp add: float_coord_def)
    moreover have "nearest_from s a x (i + 1) = - 1"
      using "1.prems" True \<open>\<not> x < float_coord s a i\<close>
      by (intro "1.IH") (simp_all add: float_coord_def)
    ultimately show ?thesis by simp
  next
    case False
    then show ?thesis by (subst nearest_from.simps) simp
  qed
qed

lemma spec_nearest_split:
  assumes "m \<le> n_pts s"
    and "\<forall>k < m. sorted_coord s a k \<le> x"
    and "\<forall>k. m \<le> k \<and> k < n_pts s \<longrightarrow> x < sorted_coord s a k"
  shows "spec_nearest_index_left_of s a x = int m - 1"
proof -
  have split: "rev [0..<n_pts s] = rev [m..<n_pts s] @ rev [0..<m]"
    using assms(1) upt_add_eq_append [of 0 m "n_pts s - m"] by simp
  have 1: "filter (\<lambda>i. sorted_coord s a i \<le> x) (rev [m..<n_pts s]) = []"
    using assms(3) by (auto simp: filter_empty_conv not_le)
  have 2: "filter (\<lambda>i. sorted_coord s a i \<le> x) (rev [0..<m]) = rev [0..<m]"
    using assms(2) by (auto simp: filter_id_conv)
  show ?thesis
    unfolding spec_nearest_index_left_of_def split filter_append 1 2
    by (cases m) simp_all
qed

lemma nearest_differs_when_no_point_beyond:
  assumes "0 < n_pts s" "\<forall>k < n_pts s. sorted_coord s a k \<le> x" "small_coords s a"
  shows "get_point_nearest_inter s a x = - 1"
    and "spec_nearest_index_left_of s a x = int (n_pts s) - 1"
proof -
  show "get_point_nearest_inter s a x = - 1"
    unfolding get_point_nearest_inter_def
    using assms(2) by (intro nearest_from_none) (simp add: float_coord_exact [OF assms(3)])
  show "spec_nearest_index_left_of s a x = int (n_pts s) - 1"
    using assms(2) by (intro spec_nearest_split) simp_all
qed

text \<open>
  What \<open>commit\<close> does to the connections, in a state that is in order: a pair is
  connected afterwards exactly when it was connected and does not consist of a point of
  the left side and a point of the right side of the line.
\<close>

lemma con_commit_iff:
  assumes ok: "state_ok s"
  shows "con (commit s l) x y =
      (con s x y \<and>
       \<not> (\<exists>i j. int i \<le> get_point_nearest_inter s (ln_axis (deref s l)) (ln_inter (deref s l)) \<and>
             get_point_nearest_inter s (ln_axis (deref s l)) (ln_inter (deref s l)) < int j \<and>
             j < n_pts s \<and>
             ((x = ls_of s (ln_axis (deref s l)) ! i \<and> y = ls_of s (ln_axis (deref s l)) ! j) \<or>
              (x = ls_of s (ln_axis (deref s l)) ! j \<and> y = ls_of s (ln_axis (deref s l)) ! i))))"
proof -
  define a where "a = ln_axis (deref s l)"
  define p where "p = get_point_nearest_inter s a (ln_inter (deref s l))"
  define ls where "ls = ls_of s a"
  from ok have wf: "wf_state s" and g: "graph_ok s" by (simp_all add: state_ok_def)
  have ok': "state_ok (commit s l)" using ok by (rule state_ok_commit)
  have n': "n_pts (commit s l) = n_pts s"
    using same_geometry_commit [of s l] by (simp add: same_geometry_def)
  have pn: "nat (p + 1) \<le> n_pts s"
    unfolding p_def by (rule get_point_nearest_inter_range(2))
  have self: "pt_self_ix (points s (ls ! i)) = ls ! i" if "i < n_pts s" for i
    unfolding ls_def using wf that by (rule self_ls_of)
  have less: "ls ! i < n_pts s" if "i < n_pts s" for i
    unfolding ls_def using wf that by (rule nth_ls_of_less)
  have clears: "\<not> con (commit s l) (ls ! i) (ls ! j) \<and> \<not> con (commit s l) (ls ! j) (ls ! i)"
    if ij: "int i \<le> p" "p < int j" "j < n_pts s" for i j
  proof -
    have i: "i < n_pts s" using ij by linarith
    have "\<not> con (commit s l) (pt_self_ix (points s (ls ! i))) (pt_self_ix (points s (ls ! j)))"
      using commit_clears [of i s l j] ij by (simp add: a_def p_def ls_def)
    then have 1: "\<not> con (commit s l) (ls ! i) (ls ! j)"
      by (simp add: self i ij(3))
    moreover have "con (commit s l) (ls ! j) (ls ! i) = con (commit s l) (ls ! i) (ls ! j)"
      using ok' less [OF i] less [OF ij(3)] by (simp add: state_ok_def graph_ok_def n')
    ultimately show ?thesis by simp
  qed
  have keeps: "con (commit s l) x y"
    if c: "con s x y"
      and no: "\<not> (\<exists>i j. int i \<le> p \<and> p < int j \<and> j < n_pts s \<and>
                  ((x = ls ! i \<and> y = ls ! j) \<or> (x = ls ! j \<and> y = ls ! i)))" for x y
  proof -
    have "\<forall>i \<in> set [0..<nat (p + 1)]. \<forall>j \<in> set [nat (p + 1)..<n_pts s].
        \<not> (x = pt_self_ix (points (pre_commit s l) (ls ! i)) \<and>
           y = pt_self_ix (points (pre_commit s l) (ls ! j))) \<and>
        \<not> (x = pt_self_ix (points (pre_commit s l) (ls ! j)) \<and>
           y = pt_self_ix (points (pre_commit s l) (ls ! i)))"
    proof (intro ballI)
      fix i j
      assume "i \<in> set [0..<nat (p + 1)]" "j \<in> set [nat (p + 1)..<n_pts s]"
      then have ij: "int i \<le> p" "p < int j" "j < n_pts s" "i < n_pts s"
        using pn by auto
      with no have "\<not> (x = ls ! i \<and> y = ls ! j) \<and> \<not> (x = ls ! j \<and> y = ls ! i)"
        by blast
      then show "\<not> (x = pt_self_ix (points (pre_commit s l) (ls ! i)) \<and>
           y = pt_self_ix (points (pre_commit s l) (ls ! j))) \<and>
        \<not> (x = pt_self_ix (points (pre_commit s l) (ls ! j)) \<and>
           y = pt_self_ix (points (pre_commit s l) (ls ! i)))"
        using self ij by simp
    qed
    then show ?thesis
      unfolding commit_eq a_def [symmetric] p_def [symmetric] ls_def [symmetric]
      using disconnect_across_keeps [of "pre_commit s l" "pre_commit s l" x y
          "[0..<nat (p + 1)]" "[nat (p + 1)..<n_pts s]" ls] c same_frame_refl
      by simp
  qed
  have "con (commit s l) x y =
      (con s x y \<and>
       \<not> (\<exists>i j. int i \<le> p \<and> p < int j \<and> j < n_pts s \<and>
             ((x = ls ! i \<and> y = ls ! j) \<or> (x = ls ! j \<and> y = ls ! i))))"
  proof (intro iffI conjI notI)
    assume "con (commit s l) x y"
    then show "con s x y" by (rule con_commit_mono)
  next
    assume c: "con (commit s l) x y"
      and "\<exists>i j. int i \<le> p \<and> p < int j \<and> j < n_pts s \<and>
             ((x = ls ! i \<and> y = ls ! j) \<or> (x = ls ! j \<and> y = ls ! i))"
    then obtain i j where ij: "int i \<le> p" "p < int j" "j < n_pts s"
      and xy: "(x = ls ! i \<and> y = ls ! j) \<or> (x = ls ! j \<and> y = ls ! i)"
      by blast
    from clears [OF ij] xy c show False by auto
  next
    assume "con s x y \<and>
       \<not> (\<exists>i j. int i \<le> p \<and> p < int j \<and> j < n_pts s \<and>
             ((x = ls ! i \<and> y = ls ! j) \<or> (x = ls ! j \<and> y = ls ! i)))"
    then show "con (commit s l) x y" using keeps [of x y] by simp
  qed
  then show ?thesis by (simp add: a_def p_def ls_def)
qed

lemma greedy_loop_no_lines:
  "x_lines s = [] \<Longrightarrow> greedy_loop s clx cly = (s, clx, cly)"
  by (subst greedy_loop.simps) (simp add: loop_cond_def)

lemma rem_cons_disconnect_points_le: "rem_cons (disconnect_points s a b) \<le> rem_cons s"
  by (simp add: rem_cons_disconnect_points)

lemma rem_cons_disconnect_across_le: "rem_cons (disconnect_across ls ixs js s) \<le> rem_cons s"
proof -
  have row: "rem_cons (disconnect_row ls i js t) \<le> rem_cons t" for i t
  proof (induction js arbitrary: t)
    case Nil
    show ?case by (simp add: disconnect_row_def)
  next
    case (Cons j js)
    let ?t1 = "disconnect_points t (pt_self_ix (points t (ls ! i))) (pt_self_ix (points t (ls ! j)))"
    have "disconnect_row ls i (j # js) t = disconnect_row ls i js ?t1"
      by (simp add: disconnect_row_def)
    moreover have "rem_cons (disconnect_row ls i js ?t1) \<le> rem_cons ?t1" by (rule Cons.IH)
    moreover have "rem_cons ?t1 \<le> rem_cons t" by (rule rem_cons_disconnect_points_le)
    ultimately show ?case by simp
  qed
  show ?thesis
  proof (induction ixs arbitrary: s)
    case Nil
    show ?case by (simp add: disconnect_across_def)
  next
    case (Cons i ixs)
    have "disconnect_across ls (i # ixs) js s
        = disconnect_across ls ixs js (disconnect_row ls i js s)"
      by (simp add: disconnect_across_def)
    moreover have "rem_cons (disconnect_across ls ixs js (disconnect_row ls i js s))
        \<le> rem_cons (disconnect_row ls i js s)" by (rule Cons.IH)
    ultimately show ?case using row [of i s] by simp
  qed
qed

text \<open>
  A line has two points on opposite sides when one is at a sorted position up to the
  split position of the line and the other at a position after it.
\<close>

definition across :: "state \<Rightarrow> line_ref \<Rightarrow> nat \<Rightarrow> nat \<Rightarrow> bool" where
  "across s l x y =
     (let a = ln_axis (deref s l);
          p = get_point_nearest_inter s a (ln_inter (deref s l));
          ls = ls_of s a
      in list_ex (\<lambda>i. list_ex (\<lambda>j.
             (x = ls ! i \<and> y = ls ! j) \<or> (x = ls ! j \<and> y = ls ! i))
           [nat (p + 1)..<n_pts s]) [0..<nat (p + 1)])"

lemma across_iff:
  "across s l x y =
     (\<exists>i j. int i \<le> get_point_nearest_inter s (ln_axis (deref s l)) (ln_inter (deref s l)) \<and>
            get_point_nearest_inter s (ln_axis (deref s l)) (ln_inter (deref s l)) < int j \<and>
            j < n_pts s \<and>
            ((x = ls_of s (ln_axis (deref s l)) ! i \<and> y = ls_of s (ln_axis (deref s l)) ! j) \<or>
             (x = ls_of s (ln_axis (deref s l)) ! j \<and> y = ls_of s (ln_axis (deref s l)) ! i)))"
proof -
  let ?p = "get_point_nearest_inter s (ln_axis (deref s l)) (ln_inter (deref s l))"
  have p: "- 1 \<le> ?p" by (rule get_point_nearest_inter_range(1))
  have i: "(i \<in> set [0..<nat (?p + 1)]) = (int i \<le> ?p)" for i
    using p by auto
  have j: "(j \<in> set [nat (?p + 1)..<n_pts s]) = (?p < int j \<and> j < n_pts s)" for j
    using p by auto
  show ?thesis
    unfolding across_def Let_def list_ex_iff Bex_def i j by blast
qed

lemma across_commit: "across (commit s l) r x y = across s r x y"
proof -
  have g: "same_geometry s (commit s l)" by (rule same_geometry_commit)
  then have "ls_of (commit s l) a = ls_of s a" and "n_pts (commit s l) = n_pts s" for a
    by (simp_all add: ls_of_def same_geometry_def)
  then show ?thesis
    unfolding across_def
    by (simp add: deref_commit_other get_point_nearest_inter_cong [OF g])
qed

text \<open>
  The connections are what the committed lines leave: two different points are
  connected exactly when no committed line has them on opposite sides.
\<close>

definition separated_by_lines :: "state \<Rightarrow> bool" where
  "separated_by_lines s =
     (\<forall>x y. x < n_pts s \<and> y < n_pts s \<longrightarrow>
        con s x y = (x \<noteq> y \<and> \<not> list_ex (\<lambda>l. across s l x y) (all_lines s)))"

lemma separated_commit:
  assumes "state_ok s" "separated_by_lines s"
  shows "separated_by_lines (commit s l)"
proof -
  have n: "n_pts (commit s l) = n_pts s"
    using same_geometry_commit [of s l] by (simp add: same_geometry_def)
  have "con (commit s l) x y = (con s x y \<and> \<not> across s l x y)" for x y
    using con_commit_iff [OF assms(1), of l x y] by (simp add: across_iff)
  then show ?thesis
    using assms(2)
    by (auto simp: separated_by_lines_def n all_lines_commit across_commit list_ex_iff)
qed

lemma separated_try_line:
  "state_ok s \<Longrightarrow> separated_by_lines s \<Longrightarrow> separated_by_lines (try_line s l)"
  by (simp add: try_line_def separated_commit)

lemma separated_loop_body:
  assumes "state_ok s" "separated_by_lines s"
  shows "separated_by_lines (loop_body s clx cly)"
  unfolding loop_body_def Let_def
  using assms by (intro separated_try_line state_ok_try_line)

lemma loop_reach_separated:
  "loop_reach s0 s clx cly \<Longrightarrow> state_ok s0 \<Longrightarrow> separated_by_lines s0 \<Longrightarrow>
   state_ok s \<and> separated_by_lines s"
  by (induction rule: loop_reach.induct)
     (simp_all add: state_ok_loop_body separated_loop_body)

lemma prepare_separated:
  assumes "idle s0" "read_instance_file s0 f = Inr s1" "prepare s1 = Inr s4"
  shows "separated_by_lines s4"
proof -
  note rd = read_instance_file_Inr [OF assms(2)]
  note i = prepare_inv [OF assms(2,3)]
  let ?s2 = "init_loops (sort_points s1)"
  from prepare_Inr(2) [OF assms(3) rd(1) rd(2)]
  obtain lx ly where s4: "s4 = add_lines (add_lines ?s2 X lx) Y ly" by blast
  have "con s4 x y = (x \<noteq> y)" if "x < n_pts s4" "y < n_pts s4" for x y
    using that by (simp add: s4 con_def init_loops_props)
  moreover have "all_lines s4 = []"
    using i(7) assms(1) by (simp add: idle_def)
  ultimately show ?thesis
    by (simp add: separated_by_lines_def)
qed

lemma no_connections_when_zero:
  assumes "graph_ok s" "rem_cons s = 0" "x < n_pts s" "y < n_pts s"
  shows "\<not> con s x y"
proof
  assume c: "con s x y"
  have "card (connected_pairs s) = 0" using assms(1,2) by (simp add: graph_ok_def)
  then have e: "connected_pairs s = {}" using finite_connected_pairs [of s] by simp
  have ne: "x \<noteq> y" using assms(1,3) c by (auto simp: graph_ok_def)
  have "con s y x" using assms(1,3,4) c by (simp add: graph_ok_def)
  with c ne assms(3,4) have "(min x y, max x y) \<in> connected_pairs s"
    by (auto simp: connected_pairs_def min_def max_def)
  with e show False by simp
qed

subsection \<open>Instances\<close>

text \<open>
  Three points on a diagonal, and the four corners of a square (the example of the
  specification), each loaded by a fresh process: the state after
  \<open>read_instance_file\<close>, the state \<open>prepare\<close> hands to the greedy loop, and the
  state the loop ends in.
\<close>

definition diag3 :: "item list" where
  "diag3 = instance_file 3 [(0, 0), (1, 1), (2, 2)]"

definition diag3_loaded :: state where
  "diag3_loaded = projr (read_instance_file init_state (Some diag3))"

definition diag3_prepared :: state where
  "diag3_prepared = projr (prepare diag3_loaded)"

definition diag3_final :: state where
  "diag3_final = fst (greedy_loop diag3_prepared 0 0)"

definition square4 :: "item list" where
  "square4 = instance_file 4 [(0, 0), (0, 3), (3, 0), (3, 3)]"

definition square4_loaded :: state where
  "square4_loaded = projr (read_instance_file init_state (Some square4))"

definition square4_prepared :: state where
  "square4_prepared = projr (prepare square4_loaded)"

definition square4_final :: state where
  "square4_final = fst (greedy_loop square4_prepared 0 0)"

text \<open>Two points.\<close>

definition two_points :: "item list" where
  "two_points = instance_file 2 [(0, 0), (1, 1)]"

definition two_points_loaded :: state where
  "two_points_loaded = projr (read_instance_file init_state (Some two_points))"

text \<open>
  An instance file that declares 100 points and supplies the 101 points
  \<open>(0,0), (1,1), \<dots>, (100,100)\<close>.
\<close>

definition long_pairs :: "(int \<times> int) list" where
  "long_pairs = map (\<lambda>k. (int k, int k)) [0..<101]"

definition long_file :: "item list" where
  "long_file = instance_file 100 long_pairs"

text \<open>
  Three points whose y coordinates are \<open>0\<close>, \<open>2^23 + 1\<close> and \<open>2^23 + 2\<close>.
\<close>

definition big3 :: "item list" where
  "big3 = instance_file 3 [(0, 0), (1, 8388609), (2, 8388610)]"

definition big3_loaded :: state where
  "big3_loaded = projr (read_instance_file init_state (Some big3))"

definition big3_prepared :: state where
  "big3_prepared = projr (prepare big3_loaded)"

lemma diag3_read: "read_instance_file init_state (Some diag3) = Inr diag3_loaded"
proof -
  have "\<not> isl (read_instance_file init_state (Some diag3))" by code_simp
  then show ?thesis by (simp add: diag3_loaded_def)
qed

lemma diag3_prepare: "prepare diag3_loaded = Inr diag3_prepared"
proof -
  have "\<not> isl (prepare diag3_loaded)" by code_simp
  then show ?thesis by (simp add: diag3_prepared_def)
qed

lemma square4_read: "read_instance_file init_state (Some square4) = Inr square4_loaded"
proof -
  have "\<not> isl (read_instance_file init_state (Some square4))" by code_simp
  then show ?thesis by (simp add: square4_loaded_def)
qed

lemma square4_prepare: "prepare square4_loaded = Inr square4_prepared"
proof -
  have "\<not> isl (prepare square4_loaded)" by code_simp
  then show ?thesis by (simp add: square4_prepared_def)
qed

lemma diag3_run:
  "rem_cons diag3_final = 2"
  "snd (greedy_loop diag3_prepared 0 0) = (1, 1)"
  "length (x_lines diag3_prepared) = 1" "length (y_lines diag3_prepared) = 1"
  "n_pts diag3_loaded = 3"
  by code_simp+

lemma diag3_final_reachable: "reachable diag3_final"
proof -
  have "solve diag3_loaded = Inr (diag3_final, snd (greedy_loop diag3_prepared 0 0))"
    by (simp add: solve_def diag3_prepare diag3_final_def)
  then have "solve diag3_loaded = Inr (diag3_final, 1, 1)"
    by (simp add: diag3_run(2))
  with diag3_read show ?thesis by (rule solve_reachable)
qed


lemma two_points_read: "read_instance_file init_state (Some two_points) = Inr two_points_loaded"
proof -
  have "\<not> isl (read_instance_file init_state (Some two_points))" by code_simp
  then show ?thesis by (simp add: two_points_loaded_def)
qed

lemma big3_read: "read_instance_file init_state (Some big3) = Inr big3_loaded"
proof -
  have "\<not> isl (read_instance_file init_state (Some big3))" by code_simp
  then show ?thesis by (simp add: big3_loaded_def)
qed

lemma big3_prepare: "prepare big3_loaded = Inr big3_prepared"
proof -
  have "\<not> isl (prepare big3_loaded)" by code_simp
  then show ?thesis by (simp add: big3_prepared_def)
qed

section \<open>The claims\<close>

text \<open>
  C1. In \<open>main\<close> the loop condition \<open>rem_cons && clx < n_x_lines && cly < n_y_lines\<close>
  holds in a state the loop passes through exactly when connections remain and at least
  one of the two cursors has not reached the end of its array: both axes get the same
  number of lines and the cursors move together. So the loop stops with
  \<open>rem_cons > 0\<close> only when both arrays of candidates are consumed.
\<close>

theorem greedy_loop_runs_until_consumed:
  assumes "idle s0" "read_instance_file s0 f = Inr s1" "prepare s1 = Inr s4"
  shows "(\<forall>s clx cly. loop_reach s4 s clx cly \<longrightarrow>
            loop_cond s clx cly =
              (0 < rem_cons s \<and> (clx < length (x_lines s) \<or> cly < length (y_lines s)))) \<and>
         (\<forall>s' cx cy. greedy_loop s4 0 0 = (s', cx, cy) \<longrightarrow>
            loop_reach s4 s' cx cy \<and> \<not> loop_cond s' cx cy \<and>
            (0 < rem_cons s' \<longrightarrow> cx = length (x_lines s') \<and> cy = length (y_lines s')))"
proof -
  note p = prepare_inv [OF assms(2,3)]
  have len: "length (x_lines s4) = length (y_lines s4)"
    using p(5,6) assms(1) by (simp add: idle_def)
  have cond: "loop_cond s clx cly =
      (0 < rem_cons s \<and> (clx < length (x_lines s) \<or> cly < length (y_lines s)))"
    if r: "loop_reach s4 s clx cly" for s clx cly
  proof -
    note i = loop_reach_inv [OF r p(1)]
    have "0 \<le> rem_cons s" using i by (simp add: state_ok_def rem_cons_nonneg)
    then show ?thesis using i len by (auto simp: loop_cond_def)
  qed
  have fin: "loop_reach s4 s' cx cy \<and> \<not> loop_cond s' cx cy \<and>
      (0 < rem_cons s' \<longrightarrow> cx = length (x_lines s') \<and> cy = length (y_lines s'))"
    if g: "greedy_loop s4 0 0 = (s', cx, cy)" for s' cx cy
  proof -
    have r: "loop_reach s4 s' cx cy" and c: "\<not> loop_cond s' cx cy"
      using greedy_loop_reach [OF loop_reach.start g] by simp_all
    have "cx = length (x_lines s') \<and> cy = length (y_lines s')" if "0 < rem_cons s'"
      using greedy_loop_final(5) [OF g p(1) len] that by simp
    with r c show ?thesis by simp
  qed
  from cond fin show ?thesis by blast
qed

theorem greedy_loop_runs_until_consumed_witness:
  "idle init_state \<and>
   read_instance_file init_state (Some diag3) = Inr diag3_loaded \<and>
   prepare diag3_loaded = Inr diag3_prepared \<and>
   loop_reach diag3_prepared diag3_final 1 1 \<and>
   \<not> loop_cond diag3_final 1 1 \<and>
   0 < rem_cons diag3_final \<and>
   length (x_lines diag3_final) = 1 \<and> length (y_lines diag3_final) = 1"
proof -
  have g: "greedy_loop diag3_prepared 0 0 = (diag3_final, 1, 1)"
    using diag3_run(2) by (simp add: diag3_final_def prod_eq_iff)
  have pos: "0 < rem_cons diag3_final" by (simp add: diag3_run(1))
  note c1 = greedy_loop_runs_until_consumed [OF idle_init_state diag3_read diag3_prepare]
  from c1 g have r: "loop_reach diag3_prepared diag3_final 1 1"
    and c: "\<not> loop_cond diag3_final 1 1" by blast+
  from c1 g pos have e: "1 = length (x_lines diag3_final)" "1 = length (y_lines diag3_final)"
    by blast+
  have l: "length (x_lines diag3_final) = 1" "length (y_lines diag3_final) = 1"
    by (rule e(1) [symmetric], rule e(2) [symmetric])
  show ?thesis
    using idle_init_state diag3_read diag3_prepare pos r c l by (intro conjI)
qed

text \<open>
  C2 says that an instance of two points gets one candidate line, which is committed,
  so that the solution holds one line and \<open>rem_cons\<close> reaches 0. The code does
  otherwise: \<open>div_axis\<close> is called with \<open>from = 0\<close> and \<open>to = 1\<close>, finds
  \<open>span == 1\<close> and returns without a line, on both axes. The greedy loop has nothing
  to test: it stops at once with both cursors at 0, the solution holds no line and the
  two points stay connected (\<open>rem_cons = 2\<close>).
\<close>

theorem two_points_get_no_line:
  assumes "idle s0" "rem_cons s0 = 0" "read_instance_file s0 f = Inr s1" "n_pts s1 = 2"
  shows "\<exists>s'. solve s1 = Inr (s', 0, 0) \<and>
           x_lines s' = [] \<and> y_lines s' = [] \<and> all_lines s' = [] \<and>
           serialize_solution s' = (0, []) \<and> rem_cons s' = 2 \<and>
           (\<exists>out. main_instance s0 f = Inr ((0, []), out))"
proof -
  note rd = read_instance_file_Inr [OF assms(3)]
  obtain s4 where p: "prepare s1 = Inr s4"
    using prepare_returns [of s1] assms(2,4) rd by auto
  note i = prepare_inv [OF assms(3) p]
  have x: "x_lines s4 = []" and y: "y_lines s4 = []" and al: "all_lines s4 = []"
    using i(5,6,7) assms(1,4) by (simp_all add: idle_def)
  have r: "rem_cons s4 = 2" using i(4) assms(4) by simp
  have g: "greedy_loop s4 0 0 = (s4, 0, 0)" using x by (rule greedy_loop_no_lines)
  have s: "solve s1 = Inr (s4, 0, 0)" using p g by (simp add: solve_def)
  have out: "serialize_solution s4 = (0, [])" by (simp add: serialize_solution_def al)
  have "main_instance s0 f = Inr ((0, []), free_connections s4)"
    using assms(3) s out by (simp add: main_instance_def)
  with s x y al out r show ?thesis by blast
qed

theorem two_points_get_no_line_witness:
  "idle init_state \<and> rem_cons init_state = 0 \<and>
   read_instance_file init_state (Some two_points) = Inr two_points_loaded \<and>
   n_pts two_points_loaded = 2 \<and>
   fst (projr (main_instance init_state (Some two_points))) = (0, []) \<and>
   rem_cons (fst (projr (solve two_points_loaded))) = 2"
proof -
  have z: "rem_cons init_state = 0" by (simp add: init_state_def)
  have n: "n_pts two_points_loaded = 2" by code_simp
  from two_points_get_no_line [OF idle_init_state z two_points_read n]
  obtain s' out where "solve two_points_loaded = Inr (s', 0, 0)" "rem_cons s' = 2"
    "main_instance init_state (Some two_points) = Inr ((0, []), out)"
    by blast
  then show ?thesis
    using idle_init_state z two_points_read n by simp
qed

text \<open>
  C3 as stated fails: the loader stores at most \<open>MAX_PTS\<close> points and compares the
  declared count with the number it stored, so it accepts a file that declares 100 points
  and supplies the 101 pairs \<open>(0,0), (1,1), \<dots>, (100,100)\<close>.
\<close>

theorem loader_accepts_longer_file:
  "long_file = instance_file 100 long_pairs \<and> length long_pairs = 101 \<and>
   \<not> isl (read_instance_file init_state (Some long_file)) \<and>
   n_pts (projr (read_instance_file init_state (Some long_file))) = 100"
proof -
  let ?s0 = "init_state\<lparr>x_pt_taken := replicate MAX_PTS 0, y_pt_taken := replicate MAX_PTS 0\<rparr>"
  have len: "length long_pairs = 101" by (simp add: long_pairs_def)
  have fit: "list_all (\<lambda>(x, y). fits_int x \<and> fits_int y) long_pairs"
    by (simp add: long_pairs_def list_all_iff fits_int_def)
  have "take MAX_PTS long_pairs = map (\<lambda>k. (int k, int k)) [0..<100]"
    by (simp add: long_pairs_def MAX_PTS_def take_map)
  then have rng: "list_all (\<lambda>(x, y). 0 \<le> x \<and> x < int MAX_PTS) (take (MAX_PTS - 0) long_pairs)"
    by (simp add: list_all_iff MAX_PTS_def)
  from read_points_pairs [OF fit rng, of 0 0 ?s0] obtain s' where
    "read_points (concat (map (\<lambda>(x, y). [Num x, Num y]) long_pairs)) 0 0 0 ?s0
       = Some (min MAX_PTS (0 + length long_pairs), s')"
    by auto
  then have rp: "read_points (concat (map (\<lambda>(x, y). [Num x, Num y]) long_pairs)) 0 0 0 ?s0
       = Some (100, s')"
    by (simp add: len MAX_PTS_def)
  have "read_instance_file init_state (Some long_file)
      = Inr (s'\<lparr>n_pts := 100, sorted_x_pt := [0..<100], sorted_y_pt := [0..<100]\<rparr>)"
    by (simp add: read_instance_file_def long_file_def instance_file_def fits_int_def
          EOF_def rp)
  then show ?thesis using len by (simp add: long_file_def)
qed

text \<open>
  C3, amended. Take an instance file that is well formed: it consists of integers that
  fit an \<open>int\<close>, the declared number of points followed by coordinate pairs, and the x
  coordinate of each pair that the loader stores is in \<open>0..MAX_PTS-1\<close>. The loader
  returns \<open>READ_N_POINTS_MORE_LESS\<close>, and \<open>main\<close> exits without writing a solution,
  whenever the declared number differs from the number of pairs supplied, of which the
  loader counts at most \<open>MAX_PTS = 100\<close>.
\<close>

theorem loader_rejects_count_mismatch:
  assumes "well_formed n ps" "n \<noteq> int (min MAX_PTS (length ps))"
  shows "read_instance_file s (Some (instance_file n ps))
           = Inl (Status READ_N_POINTS_MORE_LESS) \<and>
         main_instance s (Some (instance_file n ps)) = Inl (Quit READ_N_POINTS_MORE_LESS)"
proof -
  let ?s0 = "s\<lparr>x_pt_taken := replicate MAX_PTS 0, y_pt_taken := replicate MAX_PTS 0\<rparr>"
  from assms(1) have n: "fits_int n"
    and fit: "list_all (\<lambda>(x, y). fits_int x \<and> fits_int y) ps"
    and rng: "list_all (\<lambda>(x, y). 0 \<le> x \<and> x < int MAX_PTS) (take (MAX_PTS - 0) ps)"
    by (simp_all add: well_formed_def)
  from read_points_pairs [OF fit rng, of 0 0 ?s0] obtain s' where
    rp: "read_points (concat (map (\<lambda>(x, y). [Num x, Num y]) ps)) 0 0 0 ?s0
       = Some (min MAX_PTS (length ps), s')"
    by auto
  have "read_instance_file s (Some (instance_file n ps)) = Inl (Status READ_N_POINTS_MORE_LESS)"
    using n assms(2) by (simp add: read_instance_file_def instance_file_def EOF_def rp)
  then show ?thesis
    by (simp add: main_instance_def)
qed

theorem loader_rejects_count_mismatch_witness:
  "well_formed 5 [(0, 0), (1, 1), (2, 2)] \<and>
   (5::int) \<noteq> int (min MAX_PTS (length [(0, 0), (1, 1), (2 :: int, 2 :: int)])) \<and>
   read_instance_file init_state (Some (instance_file 5 [(0, 0), (1, 1), (2, 2)]))
     = Inl (Status READ_N_POINTS_MORE_LESS) \<and>
   main_instance init_state (Some (instance_file 5 [(0, 0), (1, 1), (2, 2)]))
     = Inl (Quit READ_N_POINTS_MORE_LESS)"
proof -
  have w: "well_formed 5 [(0, 0), (1, 1), (2, 2)]"
    by (simp add: well_formed_def fits_int_def MAX_PTS_def)
  have h: "(5::int) \<noteq> int (min MAX_PTS (length [(0, 0), (1, 1), (2 :: int, 2 :: int)]))"
    by (simp add: MAX_PTS_def)
  from loader_rejects_count_mismatch [OF w h, of init_state] w h show ?thesis by simp
qed

text \<open>
  What the amended claim leaves out. A file that declares zero points and supplies none
  is accepted; \<open>div_axis\<close> is then called with \<open>to = -1\<close> and reads \<open>ls[-1]\<close>.
  The loop goes on for every result of \<open>fscanf\<close> other than \<open>EOF\<close>: a file that
  declares two points and ends in the middle of the second pair is accepted, the second
  point with the y coordinate of the first, and a file that declares 100 points and holds
  one pair followed by text is accepted as 100 copies of that pair. A file that holds
  text only leaves \<open>n_pts\<close> as it was and gives \<open>READ_N_POINTS_MORE_LESS\<close>. With an
  x coordinate of 100 the store into \<open>x_pt_taken\<close> is outside the array.
\<close>

lemma zero_points_accepted:
  "\<not> isl (read_instance_file init_state (Some [Num 0])) \<and>
   n_pts (projr (read_instance_file init_state (Some [Num 0]))) = 0 \<and>
   isl (main_instance init_state (Some [Num 0])) \<and>
   projl (main_instance init_state (Some [Num 0])) = NoReturn"
  by code_simp

lemma half_pair_accepted:
  "\<not> isl (read_instance_file init_state (Some [Num 2, Num 7, Num 8, Num 9])) \<and>
   n_pts (projr (read_instance_file init_state (Some [Num 2, Num 7, Num 8, Num 9]))) = 2 \<and>
   pt_x (points (projr (read_instance_file init_state (Some [Num 2, Num 7, Num 8, Num 9]))) 1) = 9 \<and>
   pt_y (points (projr (read_instance_file init_state (Some [Num 2, Num 7, Num 8, Num 9]))) 1) = 8"
  by code_simp

lemma text_after_a_pair_accepted:
  "\<not> isl (read_instance_file init_state (Some [Num 100, Num 5, Num 5, Junk])) \<and>
   n_pts (projr (read_instance_file init_state (Some [Num 100, Num 5, Num 5, Junk]))) = 100 \<and>
   pt_x (points (projr (read_instance_file init_state (Some [Num 100, Num 5, Num 5, Junk]))) 99) = 5"
  by code_simp

lemma text_only_rejected:
  "isl (read_instance_file init_state (Some [Junk])) \<and>
   projl (read_instance_file init_state (Some [Junk])) = Status READ_N_POINTS_MORE_LESS \<and>
   isl (read_instance_file init_state (Some [])) \<and>
   projl (read_instance_file init_state (Some [])) = Status READ_NO_POINTS \<and>
   isl (read_instance_file init_state None) \<and>
   projl (read_instance_file init_state None) = Status READ_NOT_FOUND"
  by code_simp

lemma store_outside_x_pt_taken:
  "isl (read_instance_file init_state (Some [Num 1, Num 100, Num 0])) \<and>
   projl (read_instance_file init_state (Some [Num 1, Num 100, Num 0])) = Undefined \<and>
   isl (main_instance init_state (Some [Num 1, Num 100, Num 0])) \<and>
   projl (main_instance init_state (Some [Num 1, Num 100, Num 0])) = UndefinedRead"
  by code_simp

text \<open>
  C4 says that \<open>get_point_nearest_inter\<close> returns the position of the last point
  whose coordinate is at most the intersect, and \<open>-1\<close> exactly when there is none.
  The code returns \<open>-1\<close> whenever no coordinate exceeds the intersect, also when
  points lie at or left of it: with the points sorted at
  \<open>x = 0, 1, 2\<close> and the intersect 5 it returns \<open>-1\<close>, where the last point at or
  left of 5 is at position 2; so it does at the intersect 2. At \<open>3/2\<close>, with a point
  beyond, it returns the position 1 of the last point left of it.
\<close>

theorem nearest_inter_misses_last_point:
  "map (sorted_coord diag3_prepared X) [0..<n_pts diag3_prepared] = [0, 1, 2] \<and>
   get_point_nearest_inter diag3_prepared X 5 = - 1 \<and>
   spec_nearest_index_left_of diag3_prepared X 5 = 2 \<and>
   get_point_nearest_inter diag3_prepared X 2 = - 1 \<and>
   spec_nearest_index_left_of diag3_prepared X 2 = 2 \<and>
   get_point_nearest_inter diag3_prepared X (3 / 2) = 1 \<and>
   spec_nearest_index_left_of diag3_prepared X (3 / 2) = 1"
proof -
  have c: "map (sorted_coord diag3_prepared X) [0..<n_pts diag3_prepared] = [0, 1, 2]"
    by code_simp
  have g5: "get_point_nearest_inter diag3_prepared X 5 = - 1" by code_simp
  have s5: "spec_nearest_index_left_of diag3_prepared X 5 = 2" by code_simp
  have g2: "get_point_nearest_inter diag3_prepared X 2 = - 1" by code_simp
  have s2: "spec_nearest_index_left_of diag3_prepared X 2 = 2" by code_simp
  have g1: "get_point_nearest_inter diag3_prepared X (3 / 2) = 1" by code_simp
  have s1: "spec_nearest_index_left_of diag3_prepared X (3 / 2) = 1" by code_simp
  from c g5 s5 g2 s2 g1 s1 show ?thesis by (intro conjI)
qed



text \<open>
  C6. When \<open>initialize_connections\<close> returns, \<open>rem_cons\<close> is \<open>n * (n - 1)\<close> (and it
  returns whenever \<open>rem_cons\<close> was 0 before). In every state reached from there by
  generating lines, committing lines and disconnecting pairs, \<open>rem_cons\<close> is
  \<open>n * (n - 1)\<close> minus twice the number of unordered pairs of points that are
  disconnected, it is even and it is not negative.
\<close>

theorem rem_cons_conservation:
  "(rem_cons s1 = 0 \<longrightarrow> (\<exists>s. initialize_connections s1 = Inr s)) \<and>
   (initialize_connections s1 = Inr s \<longrightarrow>
      rem_cons s = int (n_pts s) * (int (n_pts s) - 1)) \<and>
   (reachable s \<longrightarrow>
      rem_cons s = int (n_pts s) * (int (n_pts s) - 1) - 2 * int (disconnected_pairs s) \<and>
      even (rem_cons s) \<and> 0 \<le> rem_cons s)"
proof (intro conjI impI)
  assume "rem_cons s1 = 0"
  then show "\<exists>s. initialize_connections s1 = Inr s"
    by (simp add: initialize_connections_returns)
next
  assume i: "initialize_connections s1 = Inr s"
  then have "s = init_loops s1" by (rule initialize_connections_Inr(1))
  then show "rem_cons s = int (n_pts s) * (int (n_pts s) - 1)"
    using initialize_connections_Inr(2) [OF i] by simp
next
  assume "reachable s"
  then have g: "graph_ok s"
    using reachable_state_ok by (simp add: state_ok_def)
  show "rem_cons s = int (n_pts s) * (int (n_pts s) - 1) - 2 * int (disconnected_pairs s)"
    using g by (rule rem_cons_disconnected_pairs)
  show "even (rem_cons s)" using g by (rule rem_cons_even)
  show "0 \<le> rem_cons s" using g by (rule rem_cons_nonneg)
qed

theorem rem_cons_conservation_witness:
  "rem_cons (sort_points diag3_loaded) = 0 \<and>
   rem_cons (projr (initialize_connections (sort_points diag3_loaded))) = 6 \<and>
   reachable diag3_final \<and> n_pts diag3_final = 3 \<and>
   disconnected_pairs diag3_final = 2 \<and> rem_cons diag3_final = 6 - 2 * 2"
proof -
  have z: "rem_cons (sort_points diag3_loaded) = 0" by code_simp
  have n: "n_pts diag3_final = 3" "n_pts (projr (initialize_connections (sort_points diag3_loaded))) = 3"
    by code_simp+
  note c6 = rem_cons_conservation
    [of "sort_points diag3_loaded" "projr (initialize_connections (sort_points diag3_loaded))"]
  from c6 z obtain s where "initialize_connections (sort_points diag3_loaded) = Inr s"
    by blast
  then have i: "initialize_connections (sort_points diag3_loaded)
      = Inr (projr (initialize_connections (sort_points diag3_loaded)))"
    by simp
  with c6 have six: "rem_cons (projr (initialize_connections (sort_points diag3_loaded))) = 6"
    by (simp add: n)
  from rem_cons_conservation [of "sort_points diag3_loaded" diag3_final] diag3_final_reachable
  have "rem_cons diag3_final = 6 - 2 * int (disconnected_pairs diag3_final)"
    by (simp add: n)
  then have d: "disconnected_pairs diag3_final = 2"
    by (simp add: diag3_run(1))
  show ?thesis
    using z six diag3_final_reachable n(1) d diag3_run(1) by simp
qed




text \<open>
  C8. For every instance with at least one point, loaded when no connection is left
  over from the instance before, the program reaches the greedy loop and the loop
  returns: with \<open>rem_cons = 0\<close> (DONE), or with connections left and both arrays of
  candidates consumed (EXHAUSTED). Each round tests two candidates, and the rounds
  are at most the candidates of either axis, so the tests made are at most the
  candidates of both axes together.
\<close>

theorem greedy_loop_terminates:
  assumes "idle s0" "rem_cons s0 = 0" "read_instance_file s0 f = Inr s1" "1 \<le> n_pts s1"
  shows "\<exists>s4 s' cx cy.
           prepare s1 = Inr s4 \<and> solve s1 = Inr (s', cx, cy) \<and>
           greedy_loop s4 0 0 = (s', cx, cy) \<and>
           (rem_cons s' = 0 \<or>
            (0 < rem_cons s' \<and> cx = length (x_lines s') \<and> cy = length (y_lines s'))) \<and>
           cx = loop_rounds s4 0 0 \<and> cy = loop_rounds s4 0 0 \<and>
           2 * loop_rounds s4 0 0 \<le> length (x_lines s4) + length (y_lines s4)"
proof -
  note rd = read_instance_file_Inr [OF assms(3)]
  obtain s4 where p: "prepare s1 = Inr s4"
    using prepare_returns [of s1] assms(2,4) rd by auto
  obtain s' cx cy where g: "greedy_loop s4 0 0 = (s', cx, cy)"
    by (cases "greedy_loop s4 0 0")
  note i = prepare_inv [OF assms(3) p]
  have len: "length (x_lines s4) = length (y_lines s4)"
    using i(5,6) assms(1) by (simp add: idle_def)
  note fin = greedy_loop_final [OF g i(1) len]
  have "0 \<le> rem_cons s'"
    using fin(1) by (simp add: state_ok_def rem_cons_nonneg)
  with fin(5) have "rem_cons s' = 0 \<or>
      (0 < rem_cons s' \<and> cx = length (x_lines s') \<and> cy = length (y_lines s'))"
    by auto
  moreover have "cx = loop_rounds s4 0 0" "cy = loop_rounds s4 0 0"
    using greedy_loop_rounds [OF g] by simp_all
  moreover have "solve s1 = Inr (s', cx, cy)"
    using p g by (simp add: solve_def)
  ultimately show ?thesis
    using p g fin(6,7) by (intro exI [of _ s4] exI [of _ s'] exI [of _ cx] exI [of _ cy]) simp
qed

theorem greedy_loop_terminates_witness:
  "idle init_state \<and> rem_cons init_state = 0 \<and>
   read_instance_file init_state (Some diag3) = Inr diag3_loaded \<and>
   1 \<le> n_pts diag3_loaded \<and>
   (\<exists>s' cx cy. solve diag3_loaded = Inr (s', cx, cy) \<and>
      (rem_cons s' = 0 \<or>
       (0 < rem_cons s' \<and> cx = length (x_lines s') \<and> cy = length (y_lines s'))) \<and>
      cx + cy \<le> length (x_lines diag3_prepared) + length (y_lines diag3_prepared))"
proof -
  have z: "rem_cons init_state = 0" by (simp add: init_state_def)
  have n: "1 \<le> n_pts diag3_loaded" by (simp add: diag3_run(5))
  from greedy_loop_terminates [OF idle_init_state z diag3_read n]
  obtain s4 s' cx cy where
    "prepare diag3_loaded = Inr s4" "solve diag3_loaded = Inr (s', cx, cy)"
    "rem_cons s' = 0 \<or>
       (0 < rem_cons s' \<and> cx = length (x_lines s') \<and> cy = length (y_lines s'))"
    "cx = loop_rounds s4 0 0" "cy = loop_rounds s4 0 0"
    "2 * loop_rounds s4 0 0 \<le> length (x_lines s4) + length (y_lines s4)"
    by blast
  moreover from this have "s4 = diag3_prepared" by (simp add: diag3_prepare)
  ultimately have "\<exists>s' cx cy. solve diag3_loaded = Inr (s', cx, cy) \<and>
      (rem_cons s' = 0 \<or>
       (0 < rem_cons s' \<and> cx = length (x_lines s') \<and> cy = length (y_lines s'))) \<and>
      cx + cy \<le> length (x_lines diag3_prepared) + length (y_lines diag3_prepared)"
    by (intro exI [of _ s'] exI [of _ cx] exI [of _ cy]) simp
  then show ?thesis
    using idle_init_state z diag3_read n by simp
qed

text \<open>
  C9. In every reachable state the connection entries of two different points are null
  together: \<open>points[i].pt_connections[j]\<close> is \<open>NULL\<close> exactly when
  \<open>points[j].pt_connections[i]\<close> is. \<open>disconnect_points\<close> on a connected pair
  clears both entries.
\<close>

theorem connections_symmetric:
  assumes "reachable s" "i < n_pts s" "j < n_pts s" "i \<noteq> j"
  shows "(pt_connections (points s i) j = None) = (pt_connections (points s j) i = None) \<and>
         (pt_connections (points s i) j \<noteq> None \<longrightarrow>
            pt_connections (points (disconnect_points s i j) i) j = None \<and>
            pt_connections (points (disconnect_points s i j) j) i = None)"
proof -
  have "graph_ok s"
    using assms(1) reachable_state_ok by (simp add: state_ok_def)
  then have "con s i j = con s j i"
    using assms(2,3) by (simp add: graph_ok_def)
  moreover have "\<not> con (disconnect_points s i j) i j \<and> \<not> con (disconnect_points s i j) j i"
    if "con s i j"
    using that by (simp add: con_disconnect_points)
  ultimately show ?thesis
    by (auto simp: con_def)
qed

theorem connections_symmetric_witness:
  "reachable diag3_final \<and> (0::nat) < n_pts diag3_final \<and> (1::nat) < n_pts diag3_final \<and>
   (0::nat) \<noteq> 1 \<and>
   pt_connections (points diag3_final 0) 1 = Some 1 \<and>
   pt_connections (points diag3_final 1) 0 = Some 0 \<and>
   pt_connections (points (disconnect_points diag3_final 0 1) 0) 1 = None \<and>
   pt_connections (points (disconnect_points diag3_final 0 1) 1) 0 = None"
proof -
  have n: "(0::nat) < n_pts diag3_final" "(1::nat) < n_pts diag3_final" by code_simp+
  have c: "pt_connections (points diag3_final 0) 1 = Some 1" by code_simp
  have "pt_connections (points diag3_final 1) 0 \<noteq> None"
    "pt_connections (points (disconnect_points diag3_final 0 1) 0) 1 = None"
    "pt_connections (points (disconnect_points diag3_final 0 1) 1) 0 = None"
    using connections_symmetric [OF diag3_final_reachable n, simplified] c by simp_all
  moreover have "pt_connections (points diag3_final 1) 0 = Some 0" by code_simp
  ultimately show ?thesis
    using diag3_final_reachable n c by simp
qed

text \<open>
  C10. Immediately after a line is committed, testing that same line again finds no
  connection across it: for every state \<open>s\<close> and every line \<open>l\<close>, \<open>check_con\<close> on
  the state that \<open>commit\<close> leaves returns false (0).
\<close>

theorem check_con_commit_false: "check_con (commit s l) l = False"
proof -
  let ?a = "ln_axis (deref s l)"
  let ?p = "get_point_nearest_inter s ?a (ln_inter (deref s l))"
  have g: "same_geometry s (commit s l)" by (rule same_geometry_commit)
  have p: "get_point_nearest_inter (commit s l) ?a (ln_inter (deref s l)) = ?p"
    by (rule get_point_nearest_inter_cong [OF g])
  have ls: "ls_of (commit s l) ?a = ls_of s ?a"
    using g by (simp add: ls_of_def same_geometry_def)
  have self: "\<And>k. pt_self_ix (points (commit s l) k) = pt_self_ix (points s k)"
    using g by (simp add: same_geometry_def)
  have n: "n_pts (commit s l) = n_pts s"
    using g by (simp add: same_geometry_def)
  have "\<not> con (commit s l) (pt_self_ix (points s (ls_of s ?a ! i)))
                            (pt_self_ix (points s (ls_of s ?a ! j)))"
    if "i \<in> set [0..<nat (?p + 1)]" "j \<in> set [nat (?p + 1)..<n_pts s]" for i j
    using that by (intro commit_clears) auto
  then have "\<not> check_con (commit s l) l"
    unfolding check_con_def Let_def deref_commit p ls n self
    by (auto simp: list_ex_iff con_def)
  then show ?thesis by simp
qed

text \<open>
  On the three points of the diagonal the first line of the x axis is one that
  \<open>check_con\<close> accepts before it is committed.
\<close>

lemma check_con_before_commit_example:
  "check_con diag3_prepared (XLine 0) \<and>
   \<not> check_con (commit diag3_prepared (XLine 0)) (XLine 0)"
proof -
  have "check_con diag3_prepared (XLine 0)" by code_simp
  moreover have "\<not> check_con (commit diag3_prepared (XLine 0)) (XLine 0)" by code_simp
  ultimately show ?thesis by simp
qed

section \<open>Further properties\<close>

text \<open>
  Where \<open>get_point_nearest_inter\<close> is right. On an array sorted by the axis'
  coordinate, with coordinates that convert to \<open>float\<close> exactly and with some point's
  coordinate greater than the intersect, it returns the position of the last point whose
  coordinate is at most the intersect, and \<open>-1\<close> when there is none.
\<close>

theorem nearest_agrees_when_point_beyond:
  assumes "\<forall>i j. i \<le> j \<and> j < n_pts s \<longrightarrow> sorted_coord s a i \<le> sorted_coord s a j"
    and "\<exists>k < n_pts s. x < sorted_coord s a k"
    and "small_coords s a"
  shows "get_point_nearest_inter s a x = spec_nearest_index_left_of s a x"
proof -
  define m where "m = (LEAST k. k < n_pts s \<and> x < sorted_coord s a k)"
  have m: "m < n_pts s \<and> x < sorted_coord s a m"
  proof -
    from assms(2) have "\<exists>k. k < n_pts s \<and> x < sorted_coord s a k" by blast
    then show ?thesis unfolding m_def by (rule LeastI_ex)
  qed
  have before: "sorted_coord s a k \<le> x" if "k < m" for k
  proof -
    have "\<not> (k < n_pts s \<and> x < sorted_coord s a k)"
      using that unfolding m_def by (rule not_less_Least)
    with that m show ?thesis by (simp add: not_less)
  qed
  have after: "x < sorted_coord s a k" if "m \<le> k" "k < n_pts s" for k
  proof -
    have "sorted_coord s a m \<le> sorted_coord s a k" using assms(1) that by blast
    with m show ?thesis by simp
  qed
  have "get_point_nearest_inter s a x = int m - 1"
    unfolding get_point_nearest_inter_def
    using m before by (intro nearest_from_first) (simp_all add: float_coord_exact [OF assms(3)])
  moreover have "spec_nearest_index_left_of s a x = int m - 1"
    using m before after by (intro spec_nearest_split) simp_all
  ultimately show ?thesis by simp
qed

theorem nearest_agrees_when_point_beyond_witness:
  "sorted_coord diag3_prepared X 0 \<le> sorted_coord diag3_prepared X 1 \<and>
   sorted_coord diag3_prepared X 1 \<le> sorted_coord diag3_prepared X 2 \<and>
   (2::nat) < n_pts diag3_prepared \<and> 3 / 2 < sorted_coord diag3_prepared X 2 \<and>
   small_coords diag3_prepared X \<and>
   get_point_nearest_inter diag3_prepared X (3 / 2) = 1 \<and>
   spec_nearest_index_left_of diag3_prepared X (3 / 2) = 1"
proof -
  note srt = prepare_sorted(3) [where a = X, OF diag3_read diag3_prepare]
  have s: "\<forall>i j. i \<le> j \<and> j < n_pts diag3_prepared \<longrightarrow>
      sorted_coord diag3_prepared X i \<le> sorted_coord diag3_prepared X j"
    using srt by blast
  have n: "(2::nat) < n_pts diag3_prepared" by code_simp
  have b: "3 / 2 < sorted_coord diag3_prepared X 2" by code_simp
  from n b have e: "\<exists>k < n_pts diag3_prepared. 3 / 2 < sorted_coord diag3_prepared X k"
    by blast
  have v: "spec_nearest_index_left_of diag3_prepared X (3 / 2) = 1" by code_simp
  have sm: "small_coords diag3_prepared X" by code_simp
  from nearest_agrees_when_point_beyond [OF s e sm] v
  have g: "get_point_nearest_inter diag3_prepared X (3 / 2) = 1" by simp
  have "sorted_coord diag3_prepared X 0 \<le> sorted_coord diag3_prepared X 1"
    "sorted_coord diag3_prepared X 1 \<le> sorted_coord diag3_prepared X 2"
    using srt n by simp_all
  then show ?thesis using n b g v sm by (intro conjI)
qed

text \<open>
  The candidates of an axis. On an instance of \<open>n\<close> points \<open>div_axis\<close> gives each
  axis \<open>n - 2\<close> lines (none for one or two points), each not committed and between
  two adjacent sorted positions \<open>k\<close> and \<open>k + 1\<close> with \<open>0 < k\<close>: no line lies
  between the sorted positions 0 and 1.
\<close>

theorem candidates_of_an_axis:
  assumes "idle s0" "read_instance_file s0 f = Inr s1" "prepare s1 = Inr s4"
  shows "int (length (lines_of s4 a)) = max 0 (int (n_pts s4) - 2) \<and>
         (\<forall>l \<in> set (lines_of s4 a).
            ln_committed l = 0 \<and>
            (\<exists>k. 0 < k \<and> k + 1 < n_pts s4 \<and> l = line_between s4 a (int k)))"
proof -
  note i = prepare_inv [OF assms(2,3)]
  have "int (length (lines_of s4 a)) = max 0 (int (n_pts s4) - 2)"
    using i(2,5,6) assms(1) by (cases a) (simp_all add: lines_of_def idle_def)
  moreover have "ln_committed l = 0 \<and>
      (\<exists>k. 0 < k \<and> k + 1 < n_pts s4 \<and> l = line_between s4 a (int k))"
    if "l \<in> set (lines_of s4 a)" for l
  proof -
    from prepare_lines [OF assms that] obtain k where
      k: "0 < k" "k + 1 < n_pts s4" "l = line_between s4 a (int k)" by blast
    then have "ln_committed l = 0"
      by (simp add: line_between_def mid_line_def Let_def)
    with k show ?thesis by blast
  qed
  ultimately show ?thesis by blast
qed

theorem candidates_of_an_axis_witness:
  "idle init_state \<and>
   read_instance_file init_state (Some square4) = Inr square4_loaded \<and>
   prepare square4_loaded = Inr square4_prepared \<and>
   n_pts square4_prepared = 4 \<and>
   length (lines_of square4_prepared X) = 2 \<and>
   length (lines_of square4_prepared Y) = 2 \<and>
   map ln_inter (lines_of square4_prepared X) = [3 / 2, 3]"
proof -
  have n: "n_pts square4_prepared = 4" by code_simp
  have v: "map ln_inter (lines_of square4_prepared X) = [3 / 2, 3]" by code_simp
  note x = candidates_of_an_axis [OF idle_init_state square4_read square4_prepare]
  from x [of X] x [of Y] have "length (lines_of square4_prepared X) = 2"
    "length (lines_of square4_prepared Y) = 2"
    by (simp_all add: n)
  then show ?thesis
    using idle_init_state square4_read square4_prepare n v by (intro conjI)
qed

text \<open>
  Monotonicity. \<open>rem_cons\<close> never grows: not when two points are disconnected, not
  when a line is committed, and the greedy loop ends with at most the connections it
  started with.
\<close>

theorem rem_cons_never_grows:
  "rem_cons (disconnect_points s pt1 pt2) \<le> rem_cons s \<and>
   rem_cons (commit s l) \<le> rem_cons s \<and>
   rem_cons (fst (greedy_loop s clx cly)) \<le> rem_cons s"
proof -
  have c: "rem_cons (commit t r) \<le> rem_cons t" for t r
    unfolding commit_eq using rem_cons_disconnect_across_le [of _ _ _ "pre_commit t r"] by simp
  have tl: "rem_cons (try_line t r) \<le> rem_cons t" for t r
    by (simp add: try_line_def c)
  have body: "rem_cons (loop_body t cx cy) \<le> rem_cons t" for t cx cy
    unfolding loop_body_def Let_def
    using tl [of "try_line t (XLine cx)" "YLine cy"] tl [of t "XLine cx"] by simp
  have "rem_cons (fst (greedy_loop s clx cly)) \<le> rem_cons s"
  proof (induction s clx cly rule: greedy_loop.induct)
    case (1 s clx cly)
    show ?case
    proof (cases "loop_cond s clx cly")
      case True
      then have "greedy_loop s clx cly = greedy_loop (loop_body s clx cly) (clx + 1) (cly + 1)"
        by (simp add: greedy_loop.simps [of s])
      then show ?thesis using "1.IH" [OF True] body [of s clx cly] by simp
    next
      case False
      then show ?thesis by (simp add: greedy_loop.simps [of s])
    qed
  qed
  then show ?thesis
    using c [of s l] rem_cons_disconnect_points_le [of s pt1 pt2] by simp
qed

text \<open>
  Separation. When the greedy loop has ended, two different points of the instance are
  still connected exactly when no line of the solution has them on opposite sides; and
  when it has ended with \<open>rem_cons = 0\<close>, some line of the solution has them on
  opposite sides.
\<close>

theorem solution_separates:
  assumes "idle s0" "read_instance_file s0 f = Inr s1" "solve s1 = Inr (s', cx, cy)"
    "x < n_pts s'" "y < n_pts s'"
  shows "con s' x y = (x \<noteq> y \<and> \<not> list_ex (\<lambda>l. across s' l x y) (all_lines s')) \<and>
         (rem_cons s' = 0 \<and> x \<noteq> y \<longrightarrow> list_ex (\<lambda>l. across s' l x y) (all_lines s'))"
proof -
  from assms(3) obtain s4 where p: "prepare s1 = Inr s4"
    and g: "greedy_loop s4 0 0 = (s', cx, cy)"
    by (auto simp: solve_def split: sum.splits)
  have r: "loop_reach s4 s' cx cy"
    using greedy_loop_reach [OF loop_reach.start g] by simp
  have ok: "state_ok s'" and sep: "separated_by_lines s'"
    using loop_reach_separated [OF r prepare_inv(1) [OF assms(2) p]
        prepare_separated [OF assms(1,2) p]] by simp_all
  have c: "con s' x y = (x \<noteq> y \<and> \<not> list_ex (\<lambda>l. across s' l x y) (all_lines s'))"
    using sep assms(4,5) by (simp add: separated_by_lines_def)
  have "\<not> con s' x y" if "rem_cons s' = 0"
    using ok that assms(4,5) by (intro no_connections_when_zero) (simp_all add: state_ok_def)
  with c show ?thesis by blast
qed

theorem solution_separates_witness:
  "idle init_state \<and>
   read_instance_file init_state (Some square4) = Inr square4_loaded \<and>
   (0::nat) < n_pts square4_final \<and> (3::nat) < n_pts square4_final \<and>
   rem_cons square4_final = 0 \<and>
   all_lines square4_final = [XLine 0, YLine 0] \<and>
   \<not> con square4_final 0 3 \<and>
   list_ex (\<lambda>l. across square4_final l 0 3) (all_lines square4_final)"
proof -
  have s: "solve square4_loaded
      = Inr (square4_final, fst (snd (greedy_loop square4_prepared 0 0)),
             snd (snd (greedy_loop square4_prepared 0 0)))"
    by (simp add: solve_def square4_prepare square4_final_def)
  have n: "(0::nat) < n_pts square4_final" "(3::nat) < n_pts square4_final" by code_simp+
  have r: "rem_cons square4_final = 0" by code_simp
  have al: "all_lines square4_final = [XLine 0, YLine 0]" by code_simp
  have c: "\<not> con square4_final 0 3" by code_simp
  from solution_separates [OF idle_init_state square4_read s n] c
  have "list_ex (\<lambda>l. across square4_final l 0 3) (all_lines square4_final)" by simp
  then show ?thesis
    using idle_init_state square4_read n r al c by (intro conjI)
qed

text \<open>
  \<open>rem_cons\<close> between instances. The counter is a static variable that nothing sets
  back: \<open>initialize_connections\<close> adds the new connections to what the instance
  before left. After an instance that ended with connections left, its check fails on
  the next instance and the program exits.
\<close>

lemma leftover_connections_exit:
  "rem_cons s \<noteq> 0 \<Longrightarrow> initialize_connections s = Inl QuitRemCons"
  "rem_cons s1 \<noteq> 0 \<Longrightarrow> prepare s1 = Inl QuitRemCons"
proof -
  show i: "initialize_connections s = Inl QuitRemCons" if "rem_cons s \<noteq> 0" for s
    using that by (simp add: initialize_connections_eq init_loops_props)
  show "prepare s1 = Inl QuitRemCons" if "rem_cons s1 \<noteq> 0"
    using that i [of "sort_points s1"] by (simp add: prepare_def)
qed

lemma second_instance_exits:
  "isl (main_instance (snd (projr (main_instance init_state (Some diag3)))) (Some square4)) \<and>
   projl (main_instance (snd (projr (main_instance init_state (Some diag3)))) (Some square4))
     = QuitRemCons"
proof -
  have 1: "isl (main_instance (snd (projr (main_instance init_state (Some diag3))))
      (Some square4))"
    by code_simp
  have 2: "projl (main_instance (snd (projr (main_instance init_state (Some diag3))))
      (Some square4)) = QuitRemCons"
    by code_simp
  from 1 2 show ?thesis by simp
qed

end
